theory Spec2Isabelle
  imports Main "HOL-Library.AList"
begin

section \<open>Values, objects and the store\<close>

text \<open>
  The Corpus of \<^verbatim>\<open>lib/corpus.js\<close> keeps references to Document objects, and several of
  its methods write through those references.  The model therefore has an explicit store:
  every JavaScript object lives in \<open>heap\<close> under an address, and every Corpus instance has an
  identity under which its \<open>documents\<close> array is kept.  A JavaScript string is the list of
  its UTF-16 code units.  Arrays are passed by value: no method of the Corpus writes into an
  array it was given or keeps a reference to it (\<open>concat\<close> and \<open>new Array\<close> build fresh
  ones).  Function values and non-integer numbers do not occur in the model.
\<close>

type_synonym ustring = "nat list"

type_synonym addr = nat

type_synonym cid = nat

datatype jsval =
    JUndefined
  | JNull
  | JBool bool
  | JNum int
  | JStr ustring
  | JArr "jsval list"
  | JObj addr
  | JCorpus cid

type_synonym obj = "(string \<times> jsval) list"

text \<open>What stands in a \<^verbatim>\<open>documents\<close> array: a reference to an object, which \<open>push\<close> and
  \<open>concat\<close> put there, or a string, which \<open>concat\<close> can put there (see \<open>addDocs\<close>).\<close>

datatype element = ObjRef addr | StrVal ustring

record state =
  heap :: "obj list"
  corpora :: "element list list"

text \<open>The errors the source throws: \<^verbatim>\<open>TypeError\<close> (the spec's InvalidArgument),
  \<^verbatim>\<open>Error\<close> (the spec's LengthMismatch), and whatever a caller-supplied function or an
  external primitive raises.\<close>

datatype error = TypeError | Error | Raised nat

type_synonym result = "(error + jsval) \<times> state"

type_synonym callback = "jsval \<Rightarrow> jsval \<Rightarrow> nat \<Rightarrow> error + jsval"

definition str :: "string \<Rightarrow> ustring" where
  "str cs = map of_char cs"

definition empty_state :: state where
  "empty_state = \<lparr>heap = [], corpora = []\<rparr>"

text \<open>Property read \<^verbatim>\<open>o.k\<close> (a missing property reads as \<^verbatim>\<open>undefined\<close>), property
  write \<^verbatim>\<open>o.k = v\<close>, and \<^verbatim>\<open>o.hasOwnProperty(k)\<close>, for the object at an address.\<close>

definition get_prop :: "state \<Rightarrow> addr \<Rightarrow> string \<Rightarrow> jsval" where
  "get_prop s a k =
     (if a < length (heap s)
      then (case map_of (heap s ! a) k of None \<Rightarrow> JUndefined | Some v \<Rightarrow> v)
      else JUndefined)"

definition set_prop :: "addr \<Rightarrow> string \<Rightarrow> jsval \<Rightarrow> state \<Rightarrow> state" where
  "set_prop a k v s =
     (if a < length (heap s)
      then s\<lparr>heap := (heap s)[a := AList.update k v (heap s ! a)]\<rparr>
      else s)"

definition hasOwnProperty :: "state \<Rightarrow> addr \<Rightarrow> string \<Rightarrow> bool" where
  "hasOwnProperty s a k \<longleftrightarrow> a < length (heap s) \<and> map_of (heap s ! a) k \<noteq> None"

definition new_object :: "obj \<Rightarrow> state \<Rightarrow> addr \<times> state" where
  "new_object ob s = (length (heap s), s\<lparr>heap := heap s @ [ob]\<rparr>)"

text \<open>The same for an element \<open>doc\<close> of \<^verbatim>\<open>documents\<close> and the two property names the
  Corpus uses, \<^verbatim>\<open>text\<close> and \<^verbatim>\<open>attributes\<close>: a string has neither, so \<^verbatim>\<open>doc.text\<close>
  reads as \<^verbatim>\<open>undefined\<close>, and under \<^verbatim>\<open>'use strict'\<close> (line 1) the assignment
  \<^verbatim>\<open>doc.text = v\<close> to a string throws a TypeError.\<close>

fun value_of :: "element \<Rightarrow> jsval" where
  "value_of (ObjRef a) = JObj a"
| "value_of (StrVal t) = JStr t"

fun member :: "state \<Rightarrow> element \<Rightarrow> string \<Rightarrow> jsval" where
  "member s (ObjRef a) k = get_prop s a k"
| "member s (StrVal t) k = JUndefined"

fun assign :: "element \<Rightarrow> string \<Rightarrow> jsval \<Rightarrow> state \<Rightarrow> error + state" where
  "assign (ObjRef a) k v s = Inr (set_prop a k v s)"
| "assign (StrVal t) k v s = Inl TypeError"

definition documents :: "cid \<Rightarrow> state \<Rightarrow> element list" where
  "documents c s = corpora s ! c"

definition set_documents :: "cid \<Rightarrow> element list \<Rightarrow> state \<Rightarrow> state" where
  "set_documents c ds s = s\<lparr>corpora := (corpora s)[c := ds]\<rparr>"

text \<open>The getter \<^verbatim>\<open>nDocs\<close> (lines 81-86).\<close>

definition nDocs :: "cid \<Rightarrow> state \<Rightarrow> nat" where
  "nDocs c s = length (documents c s)"

text \<open>JavaScript truthiness, as the \<^verbatim>\<open>if ( bool )\<close> of \<open>filter\<close> and the conditional
  on \<^verbatim>\<open>case_insensitive\<close> test it.\<close>

fun truthy :: "jsval \<Rightarrow> bool" where
  "truthy JUndefined = False"
| "truthy JNull = False"
| "truthy (JBool b) = b"
| "truthy (JNum n) = (n \<noteq> 0)"
| "truthy (JStr t) = (t \<noteq> [])"
| "truthy (JArr vs) = True"
| "truthy (JObj a) = True"
| "truthy (JCorpus c) = True"

section \<open>Validators and the Document constructor\<close>

text \<open>The validators are npm packages (\<^verbatim>\<open>validate.io-*\<close>, lines 13-17), not part of
  the repository.  They are modelled as the packages the source names behave:
  \<^verbatim>\<open>validate.io-string-primitive\<close> accepts a primitive string; \<^verbatim>\<open>validate.io-object\<close>
  an object that is neither \<^verbatim>\<open>null\<close> nor an array; \<^verbatim>\<open>validate.io-string-array\<close> and
  \<^verbatim>\<open>validate.io-object-array\<close> an array that is not empty and whose elements are all
  strings, respectively all objects; and \<^verbatim>\<open>validate.io-array-like\<close>, which the source
  binds to the name \<^verbatim>\<open>isArray\<close> (line 13), any value other than \<^verbatim>\<open>undefined\<close>,
  \<^verbatim>\<open>null\<close> and a function whose \<^verbatim>\<open>length\<close> is an integer between 0 and
  \<open>2\<^sup>3\<^sup>2 - 1\<close>: an array, a string, or an object with such a \<^verbatim>\<open>length\<close> property.\<close>

fun isString :: "jsval \<Rightarrow> bool" where
  "isString (JStr t) = True"
| "isString v = False"

fun isObject :: "jsval \<Rightarrow> bool" where
  "isObject (JObj a) = True"
| "isObject (JCorpus c) = True"
| "isObject v = False"

fun isStringArray :: "jsval \<Rightarrow> bool" where
  "isStringArray (JArr vs) = (vs \<noteq> [] \<and> list_all isString vs)"
| "isStringArray v = False"

fun isObjectArray :: "jsval \<Rightarrow> bool" where
  "isObjectArray (JArr vs) = (vs \<noteq> [] \<and> list_all isObject vs)"
| "isObjectArray v = False"

definition valid_length :: "jsval \<Rightarrow> bool" where
  "valid_length v = (case v of JNum n \<Rightarrow> 0 \<le> n \<and> n \<le> 4294967295 | _ \<Rightarrow> False)"

fun isArray :: "state \<Rightarrow> jsval \<Rightarrow> bool" where
  "isArray s (JArr vs) = True"
| "isArray s (JStr t) = True"
| "isArray s (JObj a) = valid_length (get_prop s a ''length'')"
| "isArray s v = False"

text \<open>\<^verbatim>\<open>val.length\<close> and \<^verbatim>\<open>val[ i ]\<close> of an array-like value.  The property name of the
  index \<open>i\<close> of an object is its decimal numeral; the element of a string at an index is
  the string of that one code unit.\<close>

fun decimal :: "nat \<Rightarrow> string" where
  "decimal n =
     (if n < 10 then [char_of (48 + n)] else decimal (n div 10) @ [char_of (48 + n mod 10)])"

declare decimal.simps [simp del]

fun length_of :: "state \<Rightarrow> jsval \<Rightarrow> nat" where
  "length_of s (JArr vs) = length vs"
| "length_of s (JStr t) = length t"
| "length_of s (JObj a) = (case get_prop s a ''length'' of JNum n \<Rightarrow> nat n | _ \<Rightarrow> 0)"
| "length_of s v = 0"

fun item :: "state \<Rightarrow> jsval \<Rightarrow> nat \<Rightarrow> jsval" where
  "item s (JArr vs) i = (if i < length vs then vs ! i else JUndefined)"
| "item s (JStr t) i = (if i < length t then JStr [t ! i] else JUndefined)"
| "item s (JObj a) i = get_prop s a (decimal i)"
| "item s v i = JUndefined"

text \<open>\<^verbatim>\<open>isDoc\<close> (lines 33-38).  A Corpus instance has no own property \<^verbatim>\<open>text\<close>.\<close>

fun isDoc :: "state \<Rightarrow> jsval \<Rightarrow> bool" where
  "isDoc s (JObj a) = (hasOwnProperty s a ''text'' \<and> hasOwnProperty s a ''attributes'')"
| "isDoc s v = False"

text \<open>\<^verbatim>\<open>isDocArray\<close> (lines 49-62).\<close>

definition isDocArray :: "state \<Rightarrow> jsval \<Rightarrow> bool" where
  "isDocArray s val =
     (if \<not> isArray s val then False
      else list_all (\<lambda>i. isDoc s (item s val i)) [0..<length_of s val])"

text \<open>Modelled from the spec: the constructor of \<^verbatim>\<open>lib/document.js\<close>, which is not among
  the sources.  "\<open>Document(text, attributes?)\<close>: \<open>text\<close> must be a string; \<open>attributes\<close>, if
  omitted, defaults to an empty mapping."  The Corpus only ever calls it with one argument.\<close>

definition Doc :: "jsval \<Rightarrow> state \<Rightarrow> (error + addr) \<times> state" where
  "Doc text s =
     (if isString text
      then (let (a, s1) = new_object [] s;
                (d, s2) = new_object [(''text'', text), (''attributes'', JObj a)] s1
            in (Inr d, s2))
      else (Inl TypeError, s))"

text \<open>The loop \<^verbatim>\<open>for ( i = 0; i < len; i++ ) arr[ i ] = new Doc( docs[ i ] )\<close> of
  \<open>init\<close> and \<open>addDocs\<close>.\<close>

fun wrap_strings :: "jsval list \<Rightarrow> state \<Rightarrow> (error + addr list) \<times> state" where
  "wrap_strings [] s = (Inr [], s)"
| "wrap_strings (v # vs) s =
     (case Doc v s of
        (Inl e, s1) \<Rightarrow> (Inl e, s1)
      | (Inr d, s1) \<Rightarrow>
          (case wrap_strings vs s1 of
             (Inl e, s2) \<Rightarrow> (Inl e, s2)
           | (Inr ds, s2) \<Rightarrow> (Inr (d # ds), s2)))"

fun elements :: "jsval \<Rightarrow> jsval list" where
  "elements (JArr vs) = vs"
| "elements v = []"

section \<open>The Corpus\<close>

text \<open>\<^verbatim>\<open>init\<close> (lines 88-109).\<close>

definition init :: "cid \<Rightarrow> jsval \<Rightarrow> state \<Rightarrow> result" where
  "init self docs s =
     (if docs = JUndefined then (Inr JUndefined, set_documents self [] s)
      else if isString docs
      then (case Doc docs s of
              (Inl e, s1) \<Rightarrow> (Inl e, s1)
            | (Inr d, s1) \<Rightarrow> (Inr JUndefined, set_documents self [ObjRef d] s1))
      else if isStringArray docs
      then (case wrap_strings (elements docs) s of
              (Inl e, s1) \<Rightarrow> (Inl e, s1)
            | (Inr arr, s1) \<Rightarrow> (Inr JUndefined, set_documents self (map ObjRef arr) s1))
      else (Inl TypeError, s))"

text \<open>The constructor (lines 75-79 and 307): a new instance is allocated and \<open>init\<close> runs on it.
  When \<open>init\<close> throws, the instance under construction is reachable from nowhere and the
  state is the one before the call.\<close>

definition Corpus :: "jsval \<Rightarrow> state \<Rightarrow> result" where
  "Corpus docs s =
     (let self = length (corpora s)
      in case init self docs (s\<lparr>corpora := corpora s @ [[]]\<rparr>) of
           (Inl e, s1) \<Rightarrow> (Inl e, s)
         | (Inr u, s1) \<Rightarrow> (Inr (JCorpus self), s1))"

text \<open>\<^verbatim>\<open>addDoc\<close> (lines 112-120).  The function has no \<^verbatim>\<open>return\<close> statement.\<close>

definition push :: "cid \<Rightarrow> element \<Rightarrow> state \<Rightarrow> state" where
  "push self d s = set_documents self (documents self s @ [d]) s"

definition addDoc :: "cid \<Rightarrow> jsval \<Rightarrow> state \<Rightarrow> result" where
  "addDoc self doc s =
     (if isString doc
      then (case Doc doc s of
              (Inl e, s1) \<Rightarrow> (Inl e, s1)
            | (Inr d, s1) \<Rightarrow> (Inr JUndefined, push self (ObjRef d) s1))
      else if isDoc s doc
      then (case doc of
              JObj d \<Rightarrow> (Inr JUndefined, push self (ObjRef d) s)
            | _ \<Rightarrow> (Inl TypeError, s))
      else (Inl TypeError, s))"

text \<open>\<^verbatim>\<open>setAttributes\<close> (lines 129-143).  The loop assigns to
  \<^verbatim>\<open>self.documents[ i ].attributes\<close> and stops where the assignment throws.\<close>

fun setAttributes_loop :: "cid \<Rightarrow> jsval list \<Rightarrow> nat \<Rightarrow> state \<Rightarrow> result" where
  "setAttributes_loop self [] i s = (Inr (JCorpus self), s)"
| "setAttributes_loop self (v # vs) i s =
     (case assign (documents self s ! i) ''attributes'' v s of
        Inl e \<Rightarrow> (Inl e, s)
      | Inr s1 \<Rightarrow> setAttributes_loop self vs (Suc i) s1)"

definition setAttributes :: "cid \<Rightarrow> jsval \<Rightarrow> state \<Rightarrow> result" where
  "setAttributes self arr s =
     (if \<not> isObjectArray arr then (Inl TypeError, s)
      else if length (elements arr) \<noteq> nDocs self s then (Inl Error, s)
      else setAttributes_loop self (elements arr) 0 s)"

text \<open>\<^verbatim>\<open>addDocs\<close> (lines 145-161).  The function has no \<^verbatim>\<open>return\<close> statement.
  \<^verbatim>\<open>self.documents.concat( docs )\<close> appends the elements of \<open>docs\<close> when \<open>docs\<close> is an
  array, and \<open>docs\<close> itself as one element when it is not; \<open>isDocArray\<close> lets only
  an array of objects, a string or an object come this far.\<close>

fun concat_items :: "jsval \<Rightarrow> element list" where
  "concat_items (JArr []) = []"
| "concat_items (JArr (JObj a # vs)) = ObjRef a # concat_items (JArr vs)"
| "concat_items (JArr (JStr t # vs)) = StrVal t # concat_items (JArr vs)"
| "concat_items (JArr (v # vs)) = concat_items (JArr vs)"
| "concat_items (JObj a) = [ObjRef a]"
| "concat_items (JStr t) = [StrVal t]"
| "concat_items v = []"

definition addDocs :: "cid \<Rightarrow> jsval \<Rightarrow> state \<Rightarrow> result" where
  "addDocs self docs s =
     (if isStringArray docs
      then (case wrap_strings (elements docs) s of
              (Inl e, s1) \<Rightarrow> (Inl e, s1)
            | (Inr arr, s1) \<Rightarrow>
                (Inr JUndefined, set_documents self (documents self s1 @ map ObjRef arr) s1))
      else if isDocArray s docs
      then (Inr JUndefined, set_documents self (documents self s @ concat_items docs) s)
      else (Inl TypeError, s))"

text \<open>Writing \<^verbatim>\<open>self.documents[ i ] = doc\<close>.\<close>

definition set_element :: "cid \<Rightarrow> nat \<Rightarrow> element \<Rightarrow> state \<Rightarrow> state" where
  "set_element self i d s = set_documents self ((documents self s)[i := d]) s"

lemma corpora_set_prop: "corpora (set_prop a k v s) = corpora s"
  by (simp add: set_prop_def)

lemma corpora_assign: "assign d k v s = Inr s1 \<Longrightarrow> corpora s1 = corpora s"
  by (cases d) (auto simp: corpora_set_prop)

lemma nDocs_assign: "assign d k v s = Inr s1 \<Longrightarrow> nDocs c s1 = nDocs c s"
  by (simp add: nDocs_def documents_def corpora_assign)

lemma nDocs_set_element: "nDocs c (set_element c i d s) = nDocs c s"
  by (cases "c < length (corpora s)")
     (simp_all add: nDocs_def documents_def set_element_def set_documents_def list_update_beyond)

text \<open>\<^verbatim>\<open>apply\<close> (lines 219-228).  A call \<^verbatim>\<open>FUN( doc.text, doc.attributes, i )\<close> either
  returns a value or throws; the callback does not write to the store.  The methods are
  modelled as invoked on the instance, so that \<^verbatim>\<open>this\<close> and \<^verbatim>\<open>self\<close> coincide.\<close>

function apply_loop :: "callback \<Rightarrow> cid \<Rightarrow> nat \<Rightarrow> state \<Rightarrow> result" where
  "apply_loop FUN self i s =
     (if i < nDocs self s
      then (let doc = documents self s ! i
            in case FUN (member s doc ''text'') (member s doc ''attributes'') i of
                 Inl e \<Rightarrow> (Inl e, s)
               | Inr t \<Rightarrow>
                   (case assign doc ''text'' t s of
                      Inl e \<Rightarrow> (Inl e, s)
                    | Inr s1 \<Rightarrow> apply_loop FUN self (Suc i) (set_element self i doc s1)))
      else (Inr (JCorpus self), s))"
  by pat_completeness auto
termination
  by (relation "measure (\<lambda>(FUN, self, i, s). nDocs self s - i)")
     (auto simp: nDocs_assign nDocs_set_element)

declare apply_loop.simps [simp del]

definition apply_corpus :: "callback \<Rightarrow> cid \<Rightarrow> state \<Rightarrow> result" where
  "apply_corpus FUN self s = apply_loop FUN self 0 s"

text \<open>\<^verbatim>\<open>map\<close> (lines 230-240).  The loop runs while \<^verbatim>\<open>i < self.nDocs\<close> and adds to
  \<^verbatim>\<open>ret\<close>; as a function of an arbitrary \<^verbatim>\<open>ret\<close> it need not terminate, so it is a
  partial function and its termination on a fresh \<^verbatim>\<open>ret\<close> is proved below.\<close>

partial_function (option) map_loop :: "callback \<Rightarrow> cid \<Rightarrow> cid \<Rightarrow> nat \<Rightarrow> state \<Rightarrow> result option" where
  "map_loop FUN self ret i s =
     (if i < nDocs self s
      then (let doc = documents self s ! i
            in case FUN (member s doc ''text'') (member s doc ''attributes'') i of
                 Inl e \<Rightarrow> Some (Inl e, s)
               | Inr t \<Rightarrow>
                   (case assign doc ''text'' t s of
                      Inl e \<Rightarrow> Some (Inl e, s)
                    | Inr s1 \<Rightarrow>
                        (case addDoc ret (value_of doc) s1 of
                           (Inl e, s2) \<Rightarrow> Some (Inl e, s2)
                         | (Inr u, s2) \<Rightarrow> map_loop FUN self ret (Suc i) s2)))
      else Some (Inr (JCorpus ret), s))"

declare map_loop.simps [code]

definition map_corpus :: "callback \<Rightarrow> cid \<Rightarrow> state \<Rightarrow> result option" where
  "map_corpus FUN self s =
     (case Corpus JUndefined s of
        (Inr (JCorpus ret), s1) \<Rightarrow> map_loop FUN self ret 0 s1
      | (Inr v, s1) \<Rightarrow> Some (Inl TypeError, s1)
      | (Inl e, s1) \<Rightarrow> Some (Inl e, s1))"

text \<open>\<^verbatim>\<open>filter\<close> (lines 249-262).\<close>

partial_function (option) filter_loop :: "callback \<Rightarrow> cid \<Rightarrow> cid \<Rightarrow> nat \<Rightarrow> state \<Rightarrow> result option" where
  "filter_loop FUN self ret i s =
     (if i < nDocs self s
      then (let doc = documents self s ! i
            in case FUN (member s doc ''text'') (member s doc ''attributes'') i of
                 Inl e \<Rightarrow> Some (Inl e, s)
               | Inr bool \<Rightarrow>
                   (if truthy bool
                    then (case addDoc ret (value_of doc) s of
                            (Inl e, s1) \<Rightarrow> Some (Inl e, s1)
                          | (Inr u, s1) \<Rightarrow> filter_loop FUN self ret (Suc i) s1)
                    else filter_loop FUN self ret (Suc i) s))
      else Some (Inr (JCorpus ret), s))"

declare filter_loop.simps [code]

definition filter_corpus :: "callback \<Rightarrow> cid \<Rightarrow> state \<Rightarrow> result option" where
  "filter_corpus FUN self s =
     (case Corpus JUndefined s of
        (Inr (JCorpus ret), s1) \<Rightarrow> filter_loop FUN self ret 0 s1
      | (Inr v, s1) \<Rightarrow> Some (Inl TypeError, s1)
      | (Inl e, s1) \<Rightarrow> Some (Inl e, s1))"

section \<open>String primitives\<close>


definition is_word_char :: "nat \<Rightarrow> bool" where
  "is_word_char c \<longleftrightarrow>
     (48 \<le> c \<and> c \<le> 57) \<or> (65 \<le> c \<and> c \<le> 90) \<or> c = 95 \<or> (97 \<le> c \<and> c \<le> 122)"






text \<open>\<^verbatim>\<open>text.replace( new RegExp( "\\b" + w + "\\b", options ), '' )\<close> (lines 269-271) for a
  word \<open>w\<close> made of word characters and dots.  The word is interpolated as it is, so a
  word character stands for itself and a dot for any code unit but a line terminator; the
  pattern has one length and no alternatives.  \<^verbatim>\<open>\b\<close> holds between two code units of
  which exactly one is a word character (the ends of the text count as none).  Matching
  runs left to right on the original text and matches do not overlap.  With the flag
  \<^verbatim>\<open>i\<close> two code units are equal when their upper-case forms are; a code unit outside
  ASCII is never equal to an ASCII one.\<close>

definition ascii_upper :: "nat \<Rightarrow> nat" where
  "ascii_upper c = (if 97 \<le> c \<and> c \<le> 122 then c - 32 else c)"

definition same_unit :: "bool \<Rightarrow> nat \<Rightarrow> nat \<Rightarrow> bool" where
  "same_unit ci a b = (if ci then ascii_upper a = ascii_upper b else a = b)"

definition is_line_terminator :: "nat \<Rightarrow> bool" where
  "is_line_terminator c \<longleftrightarrow> c \<in> {10, 13, 8232, 8233}"

definition unit_matches :: "bool \<Rightarrow> nat \<Rightarrow> nat \<Rightarrow> bool" where
  "unit_matches ci p c = (if p = 46 then \<not> is_line_terminator c else same_unit ci p c)"

text \<open>\<open>matches_from ci w prev text\<close>: the rest \<open>w\<close> of the pattern matches a prefix of \<open>text\<close>
  and \<^verbatim>\<open>\b\<close> holds behind it; \<open>prev\<close> says whether the code unit before \<open>text\<close> is a
  word character.\<close>

fun matches_from :: "bool \<Rightarrow> ustring \<Rightarrow> bool \<Rightarrow> ustring \<Rightarrow> bool" where
  "matches_from ci [] prev [] = prev"
| "matches_from ci [] prev (c # cs) = (prev \<noteq> is_word_char c)"
| "matches_from ci (p # ps) prev [] = False"
| "matches_from ci (p # ps) prev (c # cs) =
     (unit_matches ci p c \<and> matches_from ci ps (is_word_char c) cs)"

text \<open>The scan: \<open>skip\<close> code units of a match are still to be dropped; otherwise a match
  starts here when \<^verbatim>\<open>\b\<close> holds in front of \<open>c\<close> and the pattern matches.  The pattern
  of the empty word matches only empty strings, whose replacement changes nothing.\<close>

fun remove_word_from :: "bool \<Rightarrow> ustring \<Rightarrow> bool \<Rightarrow> nat \<Rightarrow> ustring \<Rightarrow> ustring" where
  "remove_word_from ci w prev skip [] = []"
| "remove_word_from ci w prev skip (c # cs) =
     (if 0 < skip then remove_word_from ci w (is_word_char c) (skip - 1) cs
      else if w \<noteq> [] \<and> prev \<noteq> is_word_char c \<and> matches_from ci w prev (c # cs)
      then remove_word_from ci w (is_word_char c) (length w - 1) cs
      else c # remove_word_from ci w (is_word_char c) 0 cs)"

definition remove_word :: "bool \<Rightarrow> ustring \<Rightarrow> ustring \<Rightarrow> ustring" where
  "remove_word ci w t = remove_word_from ci w False 0 t"

section \<open>External collaborators\<close>

text \<open>
  The primitives the Corpus takes from outside the repository are parameters of the model:
  \<^verbatim>\<open>_.clean\<close> and \<^verbatim>\<open>_.trim\<close> of underscore.string, the two stemmers of
  \<^verbatim>\<open>natural\<close>, the case conversions of the language, and the regular-expression engine
  for a pattern that has other characters than word characters and dots (\<open>regexp\<close> takes the pattern source and whether
  the flag \<^verbatim>\<open>i\<close> is set, and either throws at construction or gives the function that
  \<^verbatim>\<open>replace( re, '' )\<close> computes).
\<close>

record host =
  us_clean :: "jsval \<Rightarrow> error + jsval"
  us_trim :: "jsval \<Rightarrow> error + jsval"
  porter_stem :: "jsval \<Rightarrow> error + jsval"
  lancaster_stem :: "jsval \<Rightarrow> error + jsval"
  toLowerCase :: "ustring \<Rightarrow> ustring"
  toUpperCase :: "ustring \<Rightarrow> ustring"
  regexp :: "ustring \<Rightarrow> bool \<Rightarrow> error + (ustring \<Rightarrow> ustring)"

text \<open>A method call \<^verbatim>\<open>text.m(...)\<close> of a string method on a text that is not a string
  throws a TypeError: no other value of the model has such a method.\<close>

definition string_method :: "(ustring \<Rightarrow> ustring) \<Rightarrow> callback" where
  "string_method f text attributes i =
     (case text of JStr t \<Rightarrow> Inr (JStr (f t)) | _ \<Rightarrow> Inl TypeError)"

section \<open>Built-in normalization operations\<close>

text \<open>\<^verbatim>\<open>clean\<close> (lines 166-171) and \<^verbatim>\<open>trim\<close> (lines 173-178).  Each built-in ignores
  what \<^verbatim>\<open>self.apply\<close> returns and ends with \<^verbatim>\<open>return self\<close>; an exception of the
  callback leaves the method through \<^verbatim>\<open>apply\<close>.\<close>

definition returning_self :: "cid \<Rightarrow> result \<Rightarrow> result" where
  "returning_self self r =
     (case r of (Inl e, s) \<Rightarrow> (Inl e, s) | (Inr v, s) \<Rightarrow> (Inr (JCorpus self), s))"

definition clean :: "host \<Rightarrow> cid \<Rightarrow> state \<Rightarrow> result" where
  "clean X self s =
     returning_self self (apply_corpus (\<lambda>text attributes i. us_clean X text) self s)"









section \<open>removeWords\<close>

text \<open>\<^verbatim>\<open>new RegExp( "\\b" + words[i] + "\\b", options )\<close> followed by
  \<^verbatim>\<open>replace( myRegExp, '' )\<close>: for a word of word characters and dots the function
  above; any other word is a pattern for the engine of the host.\<close>

definition word_regexp :: "host \<Rightarrow> bool \<Rightarrow> ustring \<Rightarrow> error + (ustring \<Rightarrow> ustring)" where
  "word_regexp X ci w =
     (if list_all (\<lambda>c. is_word_char c \<or> c = 46) w then Inr (remove_word ci w)
      else regexp X ([92, 98] @ w @ [92, 98]) ci)"

text \<open>The inner loop over \<^verbatim>\<open>words\<close> for the element \<open>d\<close> of \<^verbatim>\<open>documents\<close>
  (lines 268-272): the regular expression is built first, then \<^verbatim>\<open>replace\<close> is called
  on \<^verbatim>\<open>d.text\<close>, which throws a TypeError unless that is a string.\<close>

fun removeWords_inner :: "host \<Rightarrow> ustring list \<Rightarrow> bool \<Rightarrow> element \<Rightarrow> state \<Rightarrow> result" where
  "removeWords_inner X [] ci d s = (Inr JUndefined, s)"
| "removeWords_inner X (w # ws) ci d s =
     (case word_regexp X ci w of
        Inl e \<Rightarrow> (Inl e, s)
      | Inr f \<Rightarrow>
          (case member s d ''text'' of
             JStr t \<Rightarrow>
               (case assign d ''text'' (JStr (f t)) s of
                  Inl e \<Rightarrow> (Inl e, s)
                | Inr s1 \<Rightarrow> removeWords_inner X ws ci d s1)
           | _ \<Rightarrow> (Inl TypeError, s)))"

lemma corpora_removeWords_inner: "corpora (snd (removeWords_inner X ws ci d s)) = corpora s"
proof (induction ws arbitrary: s)
  case Nil
  show ?case by simp
next
  case (Cons w ws)
  show ?case
  proof (cases "word_regexp X ci w")
    case (Inl e)
    then show ?thesis by simp
  next
    case (Inr f)
    show ?thesis
    proof (cases "member s d ''text''")
      case (JStr t)
      show ?thesis
      proof (cases "assign d ''text'' (JStr (f t)) s")
        case (Inl e)
        with Inr JStr show ?thesis by simp
      next
        case r: (Inr s1)
        with Cons.IH [of s1] corpora_assign [OF r] Inr JStr show ?thesis by simp
      qed
    qed (use Inr in simp_all)
  qed
qed

text \<open>The outer loop over the documents (line 267).\<close>

function removeWords_loop :: "host \<Rightarrow> ustring list \<Rightarrow> bool \<Rightarrow> cid \<Rightarrow> nat \<Rightarrow> state \<Rightarrow> result" where
  "removeWords_loop X words ci self doc s =
     (if doc < nDocs self s
      then (case removeWords_inner X words ci (documents self s ! doc) s of
              (Inl e, s1) \<Rightarrow> (Inl e, s1)
            | (Inr u, s1) \<Rightarrow> removeWords_loop X words ci self (Suc doc) s1)
      else (Inr JUndefined, s))"
  by pat_completeness auto
termination
proof (relation "measure (\<lambda>(X, words, ci, self, doc, s). nDocs self s - doc)", goal_cases)
  case 1
  show ?case by simp
next
  case (2 X words ci self doc s x1 x2 u)
  have "corpora (snd (removeWords_inner X words ci (documents self s ! doc) s)) = corpora s"
    by (rule corpora_removeWords_inner)
  moreover from 2 have "snd (removeWords_inner X words ci (documents self s ! doc) s) = x2"
    by (metis snd_conv)
  ultimately have "nDocs self x2 = nDocs self s"
    by (simp add: nDocs_def documents_def)
  with 2 show ?case by simp
qed

declare removeWords_loop.simps [simp del]

text \<open>\<^verbatim>\<open>removeWords\<close> (lines 264-277); \<open>words\<close> is an array of strings, and the second
  argument is tested for truthiness.\<close>

definition removeWords :: "host \<Rightarrow> ustring list \<Rightarrow> jsval \<Rightarrow> cid \<Rightarrow> state \<Rightarrow> result" where
  "removeWords X words case_insensitive self s =
     (case removeWords_loop X words (truthy case_insensitive) self 0 s of
        (Inl e, s1) \<Rightarrow> (Inl e, s1)
      | (Inr u, s1) \<Rightarrow> returning_self self (clean X self s1))"

section \<open>The whitespace primitives of underscore.string\<close>

text \<open>\<^verbatim>\<open>_.trim( str )\<close> without a character set is the trim of the language, and
  \<^verbatim>\<open>_.clean( str )\<close> is \<^verbatim>\<open>trim( str ).replace( /\s\s+/g, ' ' )\<close>: each run of two or
  more whitespace characters becomes one space, and a single whitespace character, also
  a tab or a newline, stays as it is.  Whitespace is what \<^verbatim>\<open>\s\<close> matches.\<close>

definition is_space :: "nat \<Rightarrow> bool" where
  "is_space c \<longleftrightarrow>
     (9 \<le> c \<and> c \<le> 13) \<or> c = 32 \<or> c = 160 \<or> c = 5760 \<or> (8192 \<le> c \<and> c \<le> 8202) \<or>
     c = 8232 \<or> c = 8233 \<or> c = 8239 \<or> c = 8287 \<or> c = 12288 \<or> c = 65279"

definition trim_string :: "ustring \<Rightarrow> ustring" where
  "trim_string t = rev (dropWhile is_space (rev (dropWhile is_space t)))"

text \<open>\<open>collapse_runs inside t\<close>: \<open>inside\<close> says that \<open>t\<close> continues a run that was already
  replaced.\<close>

fun collapse_runs :: "bool \<Rightarrow> ustring \<Rightarrow> ustring" where
  "collapse_runs inside [] = []"
| "collapse_runs inside [c] = (if is_space c \<and> inside then [] else [c])"
| "collapse_runs inside (c # d # cs) =
     (if is_space c
      then (if inside then collapse_runs True (d # cs)
            else if is_space d then 32 # collapse_runs True (d # cs)
            else c # collapse_runs False (d # cs))
      else c # collapse_runs False (d # cs))"

definition clean_string :: "ustring \<Rightarrow> ustring" where
  "clean_string t = collapse_runs False (trim_string t)"

section \<open>A sample host\<close>

text \<open>An instance of the collaborators, for running the model on examples: the
  whitespace primitives as above, ASCII case conversion, stemmers that return their
  input, and an engine that rejects every pattern.  The examples hand its primitives
  strings only; on any other value they raise here.\<close>

definition ascii_lower :: "nat \<Rightarrow> nat" where
  "ascii_lower c = (if 65 \<le> c \<and> c \<le> 90 then c + 32 else c)"

definition on_string :: "(ustring \<Rightarrow> ustring) \<Rightarrow> jsval \<Rightarrow> error + jsval" where
  "on_string f v = (case v of JStr t \<Rightarrow> Inr (JStr (f t)) | _ \<Rightarrow> Inl TypeError)"

definition sample_host :: host where
  "sample_host =
     \<lparr>us_clean = on_string clean_string,
      us_trim = on_string trim_string,
      porter_stem = on_string id,
      lancaster_stem = on_string id,
      toLowerCase = map ascii_lower,
      toUpperCase = map ascii_upper,
      regexp = (\<lambda>p ci. Inl (Raised 0))\<rparr>"

section \<open>Notions the properties are stated with\<close>

text \<open>The shape the elements of \<^verbatim>\<open>documents\<close> have: an object with own properties
  \<^verbatim>\<open>text\<close> and \<^verbatim>\<open>attributes\<close>, which is what \<open>isDoc\<close> tests; for one Corpus and
  for every Corpus of the store.  A stronger condition is that every text is a string.\<close>

definition documents_shaped :: "cid \<Rightarrow> state \<Rightarrow> bool" where
  "documents_shaped self s \<longleftrightarrow> (\<forall>d \<in> set (documents self s). isDoc s (value_of d))"


definition texts_are_strings :: "cid \<Rightarrow> state \<Rightarrow> bool" where
  "texts_are_strings self s \<longleftrightarrow> (\<forall>d \<in> set (documents self s). isString (member s d ''text''))"



text \<open>Removing whole words, said without a scan: a text is the concatenation of its
  maximal runs of word characters and of other characters; the words of the text are
  the runs of word characters, and deleting a word \<open>w\<close> drops every run that equals \<open>w\<close>,
  up to case when \<open>ci\<close> is set.\<close>

fun runs :: "ustring \<Rightarrow> ustring list" where
  "runs [] = []"
| "runs (c # cs) =
     (case runs cs of
        [] \<Rightarrow> [[c]]
      | r # rs \<Rightarrow> if is_word_char c = is_word_char (hd r) then (c # r) # rs else [c] # r # rs)"

definition delete_word :: "bool \<Rightarrow> ustring \<Rightarrow> ustring \<Rightarrow> ustring" where
  "delete_word ci w t = concat (filter (\<lambda>r. \<not> list_all2 (same_unit ci) w r) (runs t))"

definition delete_words :: "bool \<Rightarrow> ustring list \<Rightarrow> ustring \<Rightarrow> ustring" where
  "delete_words ci ws t = foldl (\<lambda>t w. delete_word ci w t) t ws"

text \<open>What the inner loop of \<open>removeWords\<close> computes on one text when every word is a
  pattern of word characters and dots: the scans for the listed words, one after the other.\<close>

definition remove_words :: "bool \<Rightarrow> ustring list \<Rightarrow> ustring \<Rightarrow> ustring" where
  "remove_words ci ws t = foldl (\<lambda>t w. remove_word ci w t) t ws"

text \<open>The text of every document, in the order of \<^verbatim>\<open>documents\<close> (an object standing
  there twice is rewritten twice), replaced by a function of itself.\<close>

fun rewrite_texts :: "(ustring \<Rightarrow> ustring) \<Rightarrow> element list \<Rightarrow> state \<Rightarrow> state" where
  "rewrite_texts f [] s = s"
| "rewrite_texts f (ObjRef a # ds) s =
     rewrite_texts f ds
       (case get_prop s a ''text'' of JStr t \<Rightarrow> set_prop a ''text'' (JStr (f t)) s | _ \<Rightarrow> s)"
| "rewrite_texts f (StrVal t # ds) s = rewrite_texts f ds s"

text \<open>The objects that wrapping the strings \<open>vs\<close> allocates from address \<open>n\<close> on: for
  each string an empty attributes object and the Document.\<close>

fun cells :: "nat \<Rightarrow> jsval list \<Rightarrow> obj list" where
  "cells n [] = []"
| "cells n (v # vs) = [] # [(''text'', v), (''attributes'', JObj n)] # cells (n + 2) vs"

text \<open>What \<open>filter\<close> computes, said on the list of documents from index \<open>i\<close> on: the
  error of the first call of the predicate that throws, if any, and the documents
  selected up to there.  \<open>selects\<close> and \<open>raises\<close> say of one document and its index whether
  the predicate's value is truthy, respectively whether the predicate throws.\<close>

fun filter_docs :: "callback \<Rightarrow> state \<Rightarrow> nat \<Rightarrow> element list \<Rightarrow> error option \<times> element list" where
  "filter_docs FUN s i [] = (None, [])"
| "filter_docs FUN s i (d # ds) =
     (case FUN (member s d ''text'') (member s d ''attributes'') i of
        Inl e \<Rightarrow> (Some e, [])
      | Inr b \<Rightarrow>
          (case filter_docs FUN s (Suc i) ds of
             (r, kept) \<Rightarrow> (r, if truthy b then d # kept else kept)))"

definition selects :: "callback \<Rightarrow> state \<Rightarrow> element \<times> nat \<Rightarrow> bool" where
  "selects FUN s p =
     (case FUN (member s (fst p) ''text'') (member s (fst p) ''attributes'') (snd p) of
        Inl e \<Rightarrow> False
      | Inr b \<Rightarrow> truthy b)"

definition raises :: "callback \<Rightarrow> state \<Rightarrow> element \<times> nat \<Rightarrow> bool" where
  "raises FUN s p =
     (case FUN (member s (fst p) ''text'') (member s (fst p) ''attributes'') (snd p) of
        Inl e \<Rightarrow> True
      | Inr b \<Rightarrow> False)"

definition completion :: "cid \<Rightarrow> error option \<Rightarrow> error + jsval" where
  "completion ret r = (case r of None \<Rightarrow> Inr (JCorpus ret) | Some e \<Rightarrow> Inl e)"

section \<open>Sequences of calls\<close>







section \<open>Example stores and callbacks\<close>

text \<open>\<^verbatim>\<open>Corpus( [ 'a', 'b' ] )\<close> and \<^verbatim>\<open>Corpus( [ 'a', 'b', 'c', 'd' ] )\<close> on the empty
  store; a Corpus to which one Document object was added twice, beside two further
  objects; a predicate selecting the indices 0 and 2; a client adding an object whose
  \<^verbatim>\<open>text\<close> is a number and whose \<^verbatim>\<open>attributes\<close> is an array; a transform returning a
  number.\<close>

definition two_docs :: state where
  "two_docs = snd (Corpus (JArr [JStr (str ''a''), JStr (str ''b'')]) empty_state)"

definition four_docs :: state where
  "four_docs =
     snd (Corpus (JArr [JStr (str ''a''), JStr (str ''b''), JStr (str ''c''), JStr (str ''d'')])
            empty_state)"

definition aliased_corpus :: state where
  "aliased_corpus =
     snd (addDoc 0 (JObj 1) (snd (addDoc 0 (JObj 1) (snd (Corpus JUndefined
       (snd (new_object [(''b'', JNum 2)]
         (snd (new_object [(''a'', JNum 1)]
           (snd (new_object [(''text'', JStr (str ''x'')), (''attributes'', JObj 0)]
             (snd (new_object [] empty_state)))))))))))))"

definition even_index :: callback where
  "even_index text attributes i = Inr (JBool (i = 0 \<or> i = 2))"



section \<open>Properties\<close>

subsection \<open>Evaluation and frame lemmas\<close>

lemmas ev = Corpus_def init_def Doc_def new_object_def empty_state_def set_documents_def
  split_def Let_def addDoc_def push_def documents_def nDocs_def get_prop_def set_prop_def
  hasOwnProperty_def str_def string_method_def ascii_upper_def map_corpus_def
  apply_corpus_def apply_loop.simps set_element_def returning_self_def

lemma set_element_same: "set_element c i (documents c s ! i) s = s"
  by (simp add: set_element_def set_documents_def documents_def)

lemma documents_set_prop: "documents c (set_prop a k v s) = documents c s"
  by (simp add: documents_def set_prop_def)

lemma documents_assign: "assign d k v s = Inr s1 \<Longrightarrow> documents c s1 = documents c s"
  by (simp add: documents_def corpora_assign)








lemma set_prop_same:
  assumes "hasOwnProperty s a k"
  shows "set_prop a k (get_prop s a k) s = s"
proof -
  from assms obtain v where v: "map_of (heap s ! a) k = Some v" and a: "a < length (heap s)"
    by (auto simp: hasOwnProperty_def)
  then have "AList.update k (get_prop s a k) (heap s ! a) = heap s ! a"
    by (simp add: get_prop_def update_triv)
  with a show ?thesis by (simp add: set_prop_def)
qed

lemma isDoc_value_of:
  "isDoc s (value_of d) \<Longrightarrow> \<exists>a. d = ObjRef a \<and> hasOwnProperty s a ''text'' \<and> hasOwnProperty s a ''attributes''"
  by (cases d) simp_all

lemma apply_loop_identity:
  "documents_shaped c s \<Longrightarrow> apply_loop (\<lambda>text attributes i. Inr text) c i s = (Inr (JCorpus c), s)"
proof (induction "nDocs c s - i" arbitrary: i)
  case 0
  then show ?case by (simp add: apply_loop.simps)
next
  case (Suc n)
  then have lt: "i < nDocs c s" by simp
  then have "isDoc s (value_of (documents c s ! i))"
    using Suc.prems by (simp add: documents_shaped_def nDocs_def)
  then obtain a where a: "documents c s ! i = ObjRef a" and own: "hasOwnProperty s a ''text''"
    by (auto dest: isDoc_value_of)
  from own have same: "set_prop a ''text'' (get_prop s a ''text'') s = s"
    by (rule set_prop_same)
  have el: "set_element c i (ObjRef a) s = s"
    using set_element_same [of c i s] a by simp
  have "apply_loop (\<lambda>text attributes i. Inr text) c (Suc i) s = (Inr (JCorpus c), s)"
    using Suc by simp
  with lt same a el show ?case
    by (simp add: apply_loop.simps [of _ c i s])
qed

subsection \<open>Loops over documents whose texts are strings\<close>



lemma get_prop_string_hasOwnProperty:
  "get_prop s a k = JStr t \<Longrightarrow> hasOwnProperty s a k"
  by (auto simp: get_prop_def hasOwnProperty_def split: if_splits option.splits)

lemma set_prop_overwrite: "set_prop a k v (set_prop a k v' s) = set_prop a k v s"
  by (simp add: set_prop_def update_last)

lemma get_prop_set_prop_same:
  "hasOwnProperty s a k \<Longrightarrow> get_prop (set_prop a k v s) a k = v"
  by (simp add: get_prop_def set_prop_def hasOwnProperty_def update_conv')

lemma get_prop_set_prop_other:
  "a' \<noteq> a \<or> k' \<noteq> k \<Longrightarrow> get_prop (set_prop a k v s) a' k' = get_prop s a' k'"
  by (auto simp: get_prop_def set_prop_def nth_list_update update_conv')

lemma isString_member:
  "isString (member s d k) \<Longrightarrow> \<exists>a t. d = ObjRef a \<and> get_prop s a k = JStr t"
  by (cases d; cases "member s d k") simp_all

lemma isString_text_set_prop:
  assumes "isString (member s d' ''text'')"
  shows "isString (member (set_prop a ''text'' (JStr x) s) d' ''text'')"
proof -
  from assms obtain a' t where d': "d' = ObjRef a'" and t: "get_prop s a' ''text'' = JStr t"
    by (auto dest: isString_member)
  show ?thesis
  proof (cases "a' = a")
    case True
    from t have "hasOwnProperty s a' ''text''" by (rule get_prop_string_hasOwnProperty)
    with True d' show ?thesis by (simp add: get_prop_set_prop_same)
  next
    case False
    with d' t show ?thesis by (simp add: get_prop_set_prop_other)
  qed
qed

lemma removeWords_inner_words:
  assumes "get_prop s a ''text'' = JStr t"
    and "list_all (list_all (\<lambda>c. is_word_char c \<or> c = 46)) ws"
  shows "removeWords_inner X ws ci (ObjRef a) s =
           (Inr JUndefined, set_prop a ''text'' (JStr (remove_words ci ws t)) s)"
  using assms
proof (induction ws arbitrary: s t)
  case Nil
  then have "hasOwnProperty s a ''text''" by (simp add: get_prop_string_hasOwnProperty)
  from set_prop_same [OF this] Nil show ?case by (simp add: remove_words_def)
next
  case (Cons w ws)
  let ?s1 = "set_prop a ''text'' (JStr (remove_word ci w t)) s"
  from Cons.prems have own: "hasOwnProperty s a ''text''"
    by (simp add: get_prop_string_hasOwnProperty)
  then have g: "get_prop ?s1 a ''text'' = JStr (remove_word ci w t)"
    by (rule get_prop_set_prop_same)
  from Cons.prems have ws: "list_all (list_all (\<lambda>c. is_word_char c \<or> c = 46)) ws"
    and w: "list_all (\<lambda>c. is_word_char c \<or> c = 46) w"
    by simp_all
  have "removeWords_inner X ws ci (ObjRef a) ?s1 =
          (Inr JUndefined, set_prop a ''text'' (JStr (remove_words ci ws (remove_word ci w t))) ?s1)"
    by (rule Cons.IH [OF g ws])
  with Cons.prems w show ?case
    by (simp add: word_regexp_def set_prop_overwrite remove_words_def)
qed

lemma removeWords_loop_words:
  assumes "\<forall>d \<in> set (documents c s). isString (member s d ''text'')"
    and "list_all (list_all (\<lambda>c. is_word_char c \<or> c = 46)) ws"
  shows "removeWords_loop X ws ci c i s =
           (Inr JUndefined, rewrite_texts (remove_words ci ws) (drop i (documents c s)) s)"
  using assms(1)
proof (induction "nDocs c s - i" arbitrary: i s)
  case 0
  then show ?case by (simp add: removeWords_loop.simps nDocs_def)
next
  case (Suc n)
  then have lt: "i < length (documents c s)" by (simp add: nDocs_def)
  define d where "d = documents c s ! i"
  from lt Suc.prems have "isString (member s d ''text'')" by (simp add: d_def)
  then obtain a t where a: "d = ObjRef a" and t: "get_prop s a ''text'' = JStr t"
    by (auto dest: isString_member)
  let ?s1 = "set_prop a ''text'' (JStr (remove_words ci ws t)) s"
  have docs: "documents c ?s1 = documents c s" by (rule documents_set_prop)
  have inner: "removeWords_inner X ws ci d s = (Inr JUndefined, ?s1)"
    unfolding a by (rule removeWords_inner_words [OF t assms(2)])
  have str: "\<forall>d \<in> set (documents c ?s1). isString (member ?s1 d ''text'')"
    using Suc.prems by (simp add: docs isString_text_set_prop)
  have "n = nDocs c ?s1 - Suc i"
    using Suc.hyps(2) by (simp add: nDocs_def docs)
  from Suc.hyps(1) [OF this str]
  have rest: "removeWords_loop X ws ci c (Suc i) ?s1 =
      (Inr JUndefined, rewrite_texts (remove_words ci ws) (drop (Suc i) (documents c s)) ?s1)"
    by (simp add: docs)
  have "drop i (documents c s) = ObjRef a # drop (Suc i) (documents c s)"
    using lt a Cons_nth_drop_Suc [of i "documents c s"] by (simp add: d_def)
  with lt inner rest t show ?case
    by (simp add: removeWords_loop.simps [of X ws ci c i s] nDocs_def d_def [symmetric])
qed

lemma apply_loop_strings:
  assumes "\<forall>d \<in> set (documents c s). isString (member s d ''text'')"
    and "\<And>t a i. FUN (JStr t) a i = Inr (JStr (f t))"
  shows "apply_loop FUN c i s = (Inr (JCorpus c), rewrite_texts f (drop i (documents c s)) s)"
  using assms(1)
proof (induction "nDocs c s - i" arbitrary: i s)
  case 0
  then show ?case by (simp add: apply_loop.simps nDocs_def)
next
  case (Suc n)
  then have lt: "i < length (documents c s)" by (simp add: nDocs_def)
  define d where "d = documents c s ! i"
  from lt Suc.prems have "isString (member s d ''text'')" by (simp add: d_def)
  then obtain a t where a: "d = ObjRef a" and t: "get_prop s a ''text'' = JStr t"
    by (auto dest: isString_member)
  let ?s1 = "set_prop a ''text'' (JStr (f t)) s"
  have docs: "documents c ?s1 = documents c s" by (rule documents_set_prop)
  have el: "set_element c i (ObjRef a) ?s1 = ?s1"
    using set_element_same [of c i ?s1] a by (simp add: documents_set_prop d_def)
  have str: "\<forall>d \<in> set (documents c ?s1). isString (member ?s1 d ''text'')"
    using Suc.prems by (simp add: docs isString_text_set_prop)
  have "n = nDocs c ?s1 - Suc i"
    using Suc.hyps(2) by (simp add: nDocs_def docs)
  from Suc.hyps(1) [OF this str]
  have rest: "apply_loop FUN c (Suc i) ?s1 =
      (Inr (JCorpus c), rewrite_texts f (drop (Suc i) (documents c s)) ?s1)"
    by (simp add: docs)
  have "drop i (documents c s) = ObjRef a # drop (Suc i) (documents c s)"
    using lt a Cons_nth_drop_Suc [of i "documents c s"] by (simp add: d_def)
  moreover have "documents c s ! i = ObjRef a" using a by (simp add: d_def)
  ultimately show ?case using lt rest t el
    by (simp add: apply_loop.simps [of FUN c i s] nDocs_def assms(2))
qed

lemma rewrite_texts_frame:
  "documents c (rewrite_texts f ds s) = documents c s
   \<and> ((\<forall>d \<in> set (documents c s). isString (member s d ''text''))
      \<longrightarrow> (\<forall>d \<in> set (documents c s). isString (member (rewrite_texts f ds s) d ''text'')))"
proof (induction f ds s rule: rewrite_texts.induct)
  case (1 f s)
  show ?case by simp
next
  case (2 f a ds s)
  show ?case
  proof (cases "get_prop s a ''text''")
    case (JStr t)
    let ?s1 = "set_prop a ''text'' (JStr (f t)) s"
    have docs: "documents c ?s1 = documents c s" by (rule documents_set_prop)
    from 2 JStr show ?thesis
      by (simp add: docs isString_text_set_prop)
  qed (use 2 in simp_all)
next
  case (3 f t ds s)
  then show ?case by simp
qed

lemma rewrite_texts_other:
  "ObjRef a \<notin> set ds \<Longrightarrow> get_prop (rewrite_texts f ds s) a k = get_prop s a k"
proof (induction f ds s rule: rewrite_texts.induct)
  case (1 f s)
  show ?case by simp
next
  case (2 f b ds s)
  then have "a \<noteq> b" and "ObjRef a \<notin> set ds" by auto
  with 2 show ?case
    by (cases "get_prop s b ''text''") (simp_all add: get_prop_set_prop_other)
next
  case (3 f t ds s)
  then show ?case by simp
qed

lemma rewrite_texts_distinct:
  assumes "distinct ds" and "ObjRef a \<in> set ds" and "get_prop s a ''text'' = JStr t"
  shows "get_prop (rewrite_texts f ds s) a ''text'' = JStr (f t)"
  using assms
proof (induction f ds s rule: rewrite_texts.induct)
  case (1 f s)
  then show ?case by simp
next
  case (2 f b ds s)
  show ?case
  proof (cases "a = b")
    case True
    with "2.prems" have "ObjRef a \<notin> set ds" by simp
    moreover from "2.prems"(3) have "hasOwnProperty s a ''text''"
      by (rule get_prop_string_hasOwnProperty)
    ultimately show ?thesis
      using True "2.prems"(3) by (simp add: rewrite_texts_other get_prop_set_prop_same)
  next
    case False
    with "2.prems" have mem: "ObjRef a \<in> set ds" and dist: "distinct ds" by simp_all
    show ?thesis
    proof (cases "get_prop s b ''text''")
      case (JStr u)
      let ?s1 = "set_prop b ''text'' (JStr (f u)) s"
      from False "2.prems"(3) have "get_prop ?s1 a ''text'' = JStr t"
        by (simp add: get_prop_set_prop_other)
      with "2.IH" dist mem JStr show ?thesis by simp
    qed (use "2.IH" dist mem "2.prems"(3) in simp_all)
  qed
next
  case (3 f u ds s)
  then show ?case by simp
qed

subsection \<open>The scan for a word deletes the runs equal to it\<close>

text \<open>For a word of word characters the scan \<open>remove_word\<close>, which follows the regular
  expression, deletes exactly the maximal runs of word characters that equal the word.\<close>

lemma same_unit_word: "is_word_char p \<Longrightarrow> same_unit ci p c \<Longrightarrow> is_word_char c"
  by (auto simp: same_unit_def ascii_upper_def is_word_char_def split: if_splits)

lemma unit_matches_word: "is_word_char p \<Longrightarrow> unit_matches ci p c = same_unit ci p c"
  by (auto simp: unit_matches_def is_word_char_def)

lemma matches_from_prev: "w \<noteq> [] \<Longrightarrow> matches_from ci w prev t = matches_from ci w True t"
  by (cases w; cases t) simp_all

lemma matches_from_run:
  assumes "list_all is_word_char w" and "list_all is_word_char r"
    and "rest = [] \<or> \<not> is_word_char (hd rest)"
  shows "matches_from ci w True (r @ rest) = list_all2 (same_unit ci) w r"
  using assms(1,2)
proof (induction w arbitrary: r)
  case Nil
  show ?case
  proof (cases r)
    case Nil
    with assms(3) show ?thesis by (cases rest) simp_all
  next
    case (Cons c r')
    with Nil.prems show ?thesis by simp
  qed
next
  case (Cons p ps)
  then have p: "is_word_char p" and ps: "list_all is_word_char ps" by simp_all
  show ?case
  proof (cases r)
    case Nil
    show ?thesis
    proof (cases rest)
      case Nil
      with \<open>r = []\<close> show ?thesis by simp
    next
      case (Cons c cs)
      with assms(3) have "\<not> is_word_char c" by simp
      with p have "\<not> same_unit ci p c" by (auto dest: same_unit_word)
      with Cons \<open>r = []\<close> p show ?thesis by (simp add: unit_matches_word)
    qed
  next
    case (Cons c r')
    with Cons.prems have c: "is_word_char c" and r': "list_all is_word_char r'" by simp_all
    from Cons.IH [OF ps r'] Cons p c show ?thesis by (simp add: unit_matches_word)
  qed
qed

lemma remove_word_from_skip:
  "xs \<noteq> [] \<Longrightarrow> length xs = k \<Longrightarrow>
     remove_word_from ci w prev k (xs @ rest) = remove_word_from ci w (is_word_char (last xs)) 0 rest"
proof (induction xs arbitrary: prev k)
  case Nil
  then show ?case by simp
next
  case (Cons x xs)
  show ?case
  proof (cases xs)
    case Nil
    with Cons.prems show ?thesis by (cases rest) simp_all
  next
    case (Cons y ys)
    with Cons.prems Cons.IH [of "k - 1" "is_word_char x"] show ?thesis by auto
  qed
qed

lemma remove_word_from_inside:
  "list_all is_word_char r \<Longrightarrow>
     remove_word_from ci w True 0 (r @ rest) = r @ remove_word_from ci w True 0 rest"
  by (induction r) simp_all

lemma remove_word_from_nonword:
  assumes "list_all is_word_char w"
  shows "list_all (\<lambda>c. \<not> is_word_char c) q \<Longrightarrow>
     remove_word_from ci w prev 0 (q @ rest) =
       q @ remove_word_from ci w (if q = [] then prev else False) 0 rest"
proof (induction q arbitrary: prev)
  case Nil
  show ?case by simp
next
  case (Cons c q)
  then have c: "\<not> is_word_char c" and q: "list_all (\<lambda>c. \<not> is_word_char c) q" by simp_all
  have no: "\<not> (w \<noteq> [] \<and> matches_from ci w prev (c # q @ rest))"
  proof
    assume m: "w \<noteq> [] \<and> matches_from ci w prev (c # q @ rest)"
    then obtain p ps where w: "w = p # ps" by (cases w) auto
    with assms have "is_word_char p" by simp
    moreover from m w have "unit_matches ci p c" by simp
    ultimately have "is_word_char c" by (auto simp: unit_matches_word dest: same_unit_word)
    with c show False by simp
  qed
  have "remove_word_from ci w prev 0 ((c # q) @ rest) = c # remove_word_from ci w False 0 (q @ rest)"
    using no c by auto
  also have "remove_word_from ci w False 0 (q @ rest) = q @ remove_word_from ci w False 0 rest"
    using Cons.IH [OF q, of False] by simp
  finally show ?case by simp
qed

lemma remove_word_from_word:
  assumes "list_all is_word_char w" and "r \<noteq> []" and "list_all is_word_char r"
    and "rest = [] \<or> \<not> is_word_char (hd rest)"
  shows "remove_word_from ci w False 0 (r @ rest) =
           (if list_all2 (same_unit ci) w r then [] else r) @ remove_word_from ci w True 0 rest"
proof -
  from assms(2) obtain c r' where r: "r = c # r'" by (cases r) auto
  with assms(3) have c: "is_word_char c" and r': "list_all is_word_char r'" by simp_all
  have m: "(w \<noteq> [] \<and> matches_from ci w False (r @ rest)) = list_all2 (same_unit ci) w r"
  proof (cases "w = []")
    case True
    with r show ?thesis by simp
  next
    case False
    then have "matches_from ci w False (r @ rest) = matches_from ci w True (r @ rest)"
      by (rule matches_from_prev)
    with False matches_from_run [OF assms(1,3,4)] show ?thesis by simp
  qed
  show ?thesis
  proof (cases "list_all2 (same_unit ci) w r")
    case True
    then have len: "length r' = length w - 1"
      using r by (auto dest: list_all2_lengthD)
    from True m r c
    have step: "remove_word_from ci w False 0 (r @ rest) =
                  remove_word_from ci w True (length w - 1) (r' @ rest)"
      by simp
    show ?thesis
    proof (cases "r' = []")
      case True
      with len step \<open>list_all2 (same_unit ci) w r\<close> show ?thesis by simp
    next
      case False
      with r' have "is_word_char (last r')" by (simp add: list_all_iff)
      with remove_word_from_skip [OF False len, of ci w True rest] step
        \<open>list_all2 (same_unit ci) w r\<close>
      show ?thesis by simp
    qed
  next
    case False
    with m r c
    have "remove_word_from ci w False 0 (r @ rest) = c # remove_word_from ci w True 0 (r' @ rest)"
      by auto
    with remove_word_from_inside [OF r', of ci w rest] False r show ?thesis by simp
  qed
qed

lemma runs_Nil: "runs t = [] \<longleftrightarrow> t = []"
  by (cases t) (simp_all split: list.splits)

lemma runs_hd: "t \<noteq> [] \<Longrightarrow> hd (hd (runs t)) = hd t"
  by (cases t) (simp_all split: list.splits)

lemma runs_uniform:
  assumes "r \<noteq> []" and "list_all (\<lambda>c. is_word_char c = b) r"
    and "rest = [] \<or> is_word_char (hd rest) \<noteq> b"
  shows "runs (r @ rest) = r # runs rest"
  using assms(1,2)
proof (induction r)
  case Nil
  then show ?case by simp
next
  case (Cons c r)
  then have c: "is_word_char c = b" by simp
  show ?case
  proof (cases "r = []")
    case True
    show ?thesis
    proof (cases "rest = []")
      case True
      with \<open>r = []\<close> show ?thesis by simp
    next
      case False
      with assms(3) have "is_word_char (hd rest) \<noteq> b" by simp
      with False c have "is_word_char c \<noteq> is_word_char (hd (hd (runs rest)))"
        by (simp add: runs_hd)
      with False \<open>r = []\<close> show ?thesis
        by (simp add: runs_Nil split: list.splits)
    qed
  next
    case False
    with Cons have ih: "runs (r @ rest) = r # runs rest" and "is_word_char (hd r) = b"
      by (simp_all add: list_all_iff)
    with c show ?thesis by simp
  qed
qed

lemma keep_nonword_run:
  assumes "list_all is_word_char w" and "q \<noteq> []" and "\<not> is_word_char (hd q)"
  shows "\<not> list_all2 (same_unit ci) w q"
proof
  assume a: "list_all2 (same_unit ci) w q"
  from assms(2) obtain c q' where q: "q = c # q'" by (cases q) auto
  with a obtain p ps where w: "w = p # ps" and "same_unit ci p c"
    by (cases w) auto
  with assms(1) have "is_word_char c" by (auto dest: same_unit_word)
  with assms(3) q show False by simp
qed

lemma remove_word_from_runs:
  assumes "list_all is_word_char w"
  shows "remove_word_from ci w False 0 t =
           concat (filter (\<lambda>r. \<not> list_all2 (same_unit ci) w r) (runs t))
         \<and> (t = [] \<or> \<not> is_word_char (hd t) \<longrightarrow>
              remove_word_from ci w True 0 t =
                concat (filter (\<lambda>r. \<not> list_all2 (same_unit ci) w r) (runs t)))"
proof (induction t rule: length_induct)
  case (1 t)
  let ?keep = "\<lambda>r. \<not> list_all2 (same_unit ci) w r"
  show ?case
  proof (cases t)
    case Nil
    then show ?thesis by simp
  next
    case (Cons c cs)
    show ?thesis
    proof (cases "is_word_char c")
      case True
      define r where "r = takeWhile is_word_char t"
      define rest where "rest = dropWhile is_word_char t"
      have t: "t = r @ rest" by (simp add: r_def rest_def)
      have r: "r \<noteq> []" "list_all is_word_char r"
        using Cons True by (auto simp: r_def list_all_iff dest: set_takeWhileD)
      have rest: "rest = [] \<or> \<not> is_word_char (hd rest)"
        unfolding rest_def by (metis hd_dropWhile)
      have "length rest < length t" using t r by simp
      with 1 rest have ih: "remove_word_from ci w True 0 rest = concat (filter ?keep (runs rest))"
        by blast
      have ru: "runs t = r # runs rest"
        unfolding t using r rest by (intro runs_uniform [where b = True]) simp_all
      have "remove_word_from ci w False 0 t =
              (if list_all2 (same_unit ci) w r then [] else r) @ remove_word_from ci w True 0 rest"
        unfolding t by (rule remove_word_from_word [OF assms r rest])
      with ih ru Cons True show ?thesis by simp
    next
      case False
      define q where "q = takeWhile (\<lambda>c. \<not> is_word_char c) t"
      define rest where "rest = dropWhile (\<lambda>c. \<not> is_word_char c) t"
      have t: "t = q @ rest" by (simp add: q_def rest_def)
      have q: "q \<noteq> []" "list_all (\<lambda>c. \<not> is_word_char c) q"
        using Cons False by (auto simp: q_def list_all_iff dest: set_takeWhileD)
      have hdq: "\<not> is_word_char (hd q)" using q by (cases q) simp_all
      have rest: "rest = [] \<or> is_word_char (hd rest)"
        unfolding rest_def using hd_dropWhile [of "\<lambda>c. \<not> is_word_char c" t] by auto
      have "length rest < length t" using t q by simp
      with 1 have ih: "remove_word_from ci w False 0 rest = concat (filter ?keep (runs rest))"
        by blast
      have ru: "runs t = q # runs rest"
        unfolding t using q rest by (intro runs_uniform [where b = False]) simp_all
      have keep: "?keep q" by (rule keep_nonword_run [OF assms q(1) hdq])
      have "\<And>prev. remove_word_from ci w prev 0 t = q @ remove_word_from ci w False 0 rest"
        unfolding t using remove_word_from_nonword [OF assms q(2), of ci _ rest] q(1) by simp
      with ih ru keep show ?thesis by simp
    qed
  qed
qed

lemma remove_word_delete_word:
  "list_all is_word_char w \<Longrightarrow> remove_word ci w t = delete_word ci w t"
  by (simp add: remove_word_def delete_word_def remove_word_from_runs)

lemma remove_words_delete_words:
  "list_all (list_all is_word_char) ws \<Longrightarrow> remove_words ci ws t = delete_words ci ws t"
  unfolding remove_words_def delete_words_def
  by (induction ws arbitrary: t) (simp_all add: remove_word_delete_word)

subsection \<open>The loop of setAttributes\<close>

lemma get_prop_set_prop_valid:
  "a < length (heap s) \<Longrightarrow> get_prop (set_prop a k v s) a k = v"
  by (simp add: get_prop_def set_prop_def update_conv')

lemma length_heap_set_prop: "length (heap (set_prop a k v s)) = length (heap s)"
  by (simp add: set_prop_def)

lemma setAttributes_loop_documents:
  "documents c' (snd (setAttributes_loop c vs i s)) = documents c' s"
proof (induction vs arbitrary: i s)
  case Nil
  show ?case by simp
next
  case (Cons v vs)
  show ?case
  proof (cases "assign (documents c s ! i) ''attributes'' v s")
    case (Inl e)
    then show ?thesis by simp
  next
    case (Inr s1)
    with Cons.IH [of "Suc i" s1] documents_assign [OF Inr, of c'] show ?thesis by simp
  qed
qed

lemma setAttributes_loop_other:
  "k \<noteq> ''attributes'' \<or> (\<forall>j < length vs. documents c s ! (i + j) \<noteq> ObjRef d)
   \<Longrightarrow> get_prop (snd (setAttributes_loop c vs i s)) d k = get_prop s d k"
proof (induction vs arbitrary: i s)
  case Nil
  show ?case by simp
next
  case (Cons v vs)
  show ?case
  proof (cases "documents c s ! i")
    case (StrVal t)
    then show ?thesis by simp
  next
    case (ObjRef a)
    let ?s1 = "set_prop a ''attributes'' v s"
    have "k \<noteq> ''attributes'' \<or> (\<forall>j < length vs. documents c ?s1 ! (Suc i + j) \<noteq> ObjRef d)"
      using Cons.prems by (auto simp: documents_set_prop)
    then have "get_prop (snd (setAttributes_loop c vs (Suc i) ?s1)) d k = get_prop ?s1 d k"
      by (rule Cons.IH)
    moreover have "get_prop ?s1 d k = get_prop s d k"
      using Cons.prems ObjRef by (intro get_prop_set_prop_other) auto
    ultimately show ?thesis using ObjRef by simp
  qed
qed

lemma setAttributes_loop_returns:
  "\<forall>j < length vs. \<exists>a. documents c s ! (i + j) = ObjRef a
   \<Longrightarrow> fst (setAttributes_loop c vs i s) = Inr (JCorpus c)"
proof (induction vs arbitrary: i s)
  case Nil
  show ?case by simp
next
  case (Cons v vs)
  from Cons.prems [rule_format, of 0] obtain a where a: "documents c s ! i = ObjRef a" by auto
  let ?s1 = "set_prop a ''attributes'' v s"
  have "\<forall>j < length vs. \<exists>a. documents c ?s1 ! (Suc i + j) = ObjRef a"
    using Cons.prems by (auto simp: documents_set_prop)
  from Cons.IH [OF this] a show ?case by simp
qed

lemma setAttributes_loop_at:
  assumes "j < length vs"
    and "documents c s ! (i + j) = ObjRef a"
    and "a < length (heap s)"
    and "\<forall>j < length vs. \<exists>a. documents c s ! (i + j) = ObjRef a"
    and "\<forall>j'. j < j' \<and> j' < length vs \<longrightarrow> documents c s ! (i + j') \<noteq> ObjRef a"
  shows "get_prop (snd (setAttributes_loop c vs i s)) a ''attributes'' = vs ! j"
  using assms
proof (induction vs arbitrary: i j s)
  case Nil
  then show ?case by simp
next
  case (Cons v vs)
  from Cons.prems(4) [rule_format, of 0] obtain b where b: "documents c s ! i = ObjRef b" by auto
  let ?s1 = "set_prop b ''attributes'' v s"
  have docs: "documents c ?s1 = documents c s" by (rule documents_set_prop)
  show ?case
  proof (cases j)
    case 0
    with Cons.prems(2) b have ab: "b = a" by simp
    have "\<forall>j' < length vs. documents c ?s1 ! (Suc i + j') \<noteq> ObjRef a"
      using Cons.prems(5) 0 by (auto simp: docs)
    then have "get_prop (snd (setAttributes_loop c vs (Suc i) ?s1)) a ''attributes''
                 = get_prop ?s1 a ''attributes''"
      by (intro setAttributes_loop_other) simp
    with Cons.prems(3) 0 b ab show ?thesis by (simp add: get_prop_set_prop_valid)
  next
    case (Suc j0)
    have "get_prop (snd (setAttributes_loop c vs (Suc i) ?s1)) a ''attributes'' = vs ! j0"
    proof (rule Cons.IH)
      show "j0 < length vs" using Cons.prems(1) Suc by simp
      show "documents c ?s1 ! (Suc i + j0) = ObjRef a"
        using Cons.prems(2) Suc by (simp add: docs)
      show "a < length (heap ?s1)"
        using Cons.prems(3) by (simp add: length_heap_set_prop)
      show "\<forall>j < length vs. \<exists>a. documents c ?s1 ! (Suc i + j) = ObjRef a"
        using Cons.prems(4) by (auto simp: docs)
      show "\<forall>j'. j0 < j' \<and> j' < length vs \<longrightarrow> documents c ?s1 ! (Suc i + j') \<noteq> ObjRef a"
      proof (intro allI impI)
        fix j' assume "j0 < j' \<and> j' < length vs"
        then have "j < Suc j' \<and> Suc j' < length (v # vs)" using Suc by simp
        with Cons.prems(5) have "documents c s ! (i + Suc j') \<noteq> ObjRef a"
          by blast
        then show "documents c ?s1 ! (Suc i + j') \<noteq> ObjRef a"
          by (simp add: docs)
      qed
    qed
    with Suc b show ?thesis by simp
  qed
qed

subsection \<open>Wrapping an array of strings\<close>

lemma length_cells: "length (cells n vs) = 2 * length vs"
  by (induction vs arbitrary: n) simp_all

lemma cells_nth:
  "i < length vs \<Longrightarrow>
     cells n vs ! (2 * i) = [] \<and>
     cells n vs ! (2 * i + 1) = [(''text'', vs ! i), (''attributes'', JObj (n + 2 * i))]"
proof (induction vs arbitrary: n i)
  case Nil
  then show ?case by simp
next
  case (Cons v vs)
  show ?case
  proof (cases i)
    case 0
    then show ?thesis by simp
  next
    case (Suc j)
    with Cons.prems have "j < length vs" by simp
    from Cons.IH [OF this, of "n + 2"] Suc show ?thesis by simp
  qed
qed

lemma wrap_strings_eq:
  "list_all isString vs \<Longrightarrow>
     wrap_strings vs s =
       (Inr (map (\<lambda>i. length (heap s) + 2 * i + 1) [0..<length vs]),
        s\<lparr>heap := heap s @ cells (length (heap s)) vs\<rparr>)"
proof (induction vs arbitrary: s)
  case Nil
  show ?case by simp
next
  case (Cons v vs)
  let ?s1 = "s\<lparr>heap := heap s @ [[], [(''text'', v), (''attributes'', JObj (length (heap s)))]]\<rparr>"
  from Cons.prems have v: "isString v" and vs: "list_all isString vs" by simp_all
  have d: "Doc v s = (Inr (Suc (length (heap s))), ?s1)"
    using v by (simp add: Doc_def new_object_def)
  have "wrap_strings vs ?s1 =
       (Inr (map (\<lambda>i. length (heap ?s1) + 2 * i + 1) [0..<length vs]),
        ?s1\<lparr>heap := heap ?s1 @ cells (length (heap ?s1)) vs\<rparr>)"
    by (rule Cons.IH [OF vs])
  with d show ?case by (simp add: map_upt_Suc del: upt_Suc)
qed

lemma addDoc_returns:
  "fst (addDoc self doc s) = Inr JUndefined \<or> fst (addDoc self doc s) = Inl TypeError"
  by (cases doc) (simp_all add: addDoc_def Doc_def new_object_def split_def Let_def)

lemma addDocs_returns:
  "fst (addDocs self docs s) = Inr JUndefined \<or> fst (addDocs self docs s) = Inl TypeError"
proof (cases "isStringArray docs")
  case True
  then have "list_all isString (elements docs)" by (cases docs) simp_all
  then have "wrap_strings (elements docs) s =
       (Inr (map (\<lambda>i. length (heap s) + 2 * i + 1) [0..<length (elements docs)]),
        s\<lparr>heap := heap s @ cells (length (heap s)) (elements docs)\<rparr>)"
    by (rule wrap_strings_eq)
  with True show ?thesis by (simp add: addDocs_def)
next
  case False
  then show ?thesis by (simp add: addDocs_def)
qed

subsection \<open>The loop of filter\<close>

lemma get_prop_heap_eq: "heap s' = heap s \<Longrightarrow> get_prop s' = get_prop s"
  by (simp add: fun_eq_iff get_prop_def)

lemma isDoc_heap_eq: "heap s' = heap s \<Longrightarrow> isDoc s' v = isDoc s v"
  by (cases v) (simp_all add: hasOwnProperty_def)

lemma member_heap_eq: "heap s' = heap s \<Longrightarrow> member s' d k = member s d k"
  by (cases d) (simp_all add: get_prop_heap_eq [of s' s])

lemma filter_docs_heap_eq: "heap s' = heap s \<Longrightarrow> filter_docs FUN s' i ds = filter_docs FUN s i ds"
  by (induction ds arbitrary: i) (simp_all add: member_heap_eq [of s' s] split: sum.splits)

lemma filter_docs_no_raise:
  "\<forall>p \<in> set (zip ds [i..<i + length ds]). \<not> raises FUN s p \<Longrightarrow>
     filter_docs FUN s i ds = (None, map fst (filter (selects FUN s) (zip ds [i..<i + length ds])))"
proof (induction ds arbitrary: i)
  case Nil
  show ?case by simp
next
  case (Cons d ds)
  have up: "[i..<i + length (d # ds)] = i # [Suc i..<Suc i + length ds]"
    by (simp add: upt_rec)
  from Cons.prems have nr: "\<not> raises FUN s (d, i)"
    and rest: "\<forall>p \<in> set (zip ds [Suc i..<Suc i + length ds]). \<not> raises FUN s p"
    unfolding up by simp_all
  from nr obtain b where b: "FUN (member s d ''text'') (member s d ''attributes'') i = Inr b"
    by (auto simp: raises_def split: sum.splits)
  from Cons.IH [OF rest] b show ?case
    unfolding up by (simp add: selects_def)
qed

lemma filter_docs_subset: "set (snd (filter_docs FUN s i ds)) \<subseteq> set ds"
proof (induction ds arbitrary: i)
  case Nil
  show ?case by simp
next
  case (Cons d ds)
  from Cons.IH [of "Suc i"] show ?case
    by (auto split: sum.splits prod.splits)
qed

lemma set_documents_twice: "set_documents c ds (set_documents c ds' s) = set_documents c ds s"
  by (simp add: set_documents_def)

lemma documents_set_documents_same:
  "c < length (corpora s) \<Longrightarrow> documents c (set_documents c ds s) = ds"
  by (simp add: documents_def set_documents_def)

lemma documents_set_documents_other:
  "c' \<noteq> c \<Longrightarrow> documents c' (set_documents c ds s) = documents c' s"
  by (simp add: documents_def set_documents_def)

lemma addDoc_document:
  "isDoc s (value_of d) \<Longrightarrow> addDoc ret (value_of d) s = (Inr JUndefined, push ret d s)"
  by (cases d) (simp_all add: addDoc_def)

lemma filter_loop_unfold:
  "filter_loop FUN c ret i s =
     (if i < nDocs c s
      then (case FUN (member s (documents c s ! i) ''text'')
                  (member s (documents c s ! i) ''attributes'') i of
              Inl e \<Rightarrow> Some (Inl e, s)
            | Inr b \<Rightarrow>
                (if truthy b
                 then (case addDoc ret (value_of (documents c s ! i)) s of
                         (Inl e, s1) \<Rightarrow> Some (Inl e, s1)
                       | (Inr u, s1) \<Rightarrow> filter_loop FUN c ret (Suc i) s1)
                 else filter_loop FUN c ret (Suc i) s))
      else Some (Inr (JCorpus ret), s))"
  by (subst filter_loop.simps) (simp add: Let_def)

lemma filter_loop_eq:
  assumes "ret \<noteq> c" and "ret < length (corpora s)"
    and "\<forall>d \<in> set (documents c s). isDoc s (value_of d)"
  shows "filter_loop FUN c ret i s =
           Some (completion ret (fst (filter_docs FUN s i (drop i (documents c s)))),
                 set_documents ret
                   (documents ret s @ snd (filter_docs FUN s i (drop i (documents c s)))) s)"
  using assms(2,3)
proof (induction "nDocs c s - i" arbitrary: i s)
  case 0
  then have "\<not> i < nDocs c s" by simp
  moreover have "set_documents ret (documents ret s) s = s"
    by (simp add: set_documents_def documents_def)
  ultimately show ?case
    by (simp add: filter_loop_unfold [of FUN c ret i s] nDocs_def completion_def)
next
  case (Suc n)
  then have lt: "i < nDocs c s" by simp
  define d where "d = documents c s ! i"
  have dr: "drop i (documents c s) = d # drop (Suc i) (documents c s)"
    using lt by (simp add: d_def Cons_nth_drop_Suc nDocs_def)
  from lt Suc.prems have doc: "isDoc s (value_of d)" by (simp add: d_def nDocs_def)
  have same: "set_documents ret (documents ret s) s = s"
    by (simp add: set_documents_def documents_def)
  show ?case
  proof (cases "FUN (member s d ''text'') (member s d ''attributes'') i")
    case (Inl e)
    then have "filter_loop FUN c ret i s = Some (Inl e, s)"
      using lt by (simp add: filter_loop_unfold [of FUN c ret i s] d_def)
    moreover have "filter_docs FUN s i (drop i (documents c s)) = (Some e, [])"
      unfolding dr using Inl by simp
    ultimately show ?thesis by (simp add: completion_def same)
  next
    case (Inr b)
    show ?thesis
    proof (cases "truthy b")
      case False
      have "n = nDocs c s - Suc i" using Suc.hyps(2) by simp
      note ih = Suc.hyps(1) [OF this Suc.prems]
      have "filter_loop FUN c ret i s = filter_loop FUN c ret (Suc i) s"
        using lt Inr False by (simp add: filter_loop_unfold [of FUN c ret i s] d_def)
      moreover have "filter_docs FUN s i (drop i (documents c s)) =
                       filter_docs FUN s (Suc i) (drop (Suc i) (documents c s))"
        unfolding dr using Inr False by (simp split: prod.splits)
      ultimately show ?thesis using ih by simp
    next
      case True
      let ?s1 = "push ret d s"
      have h1: "heap ?s1 = heap s" by (simp add: push_def set_documents_def)
      have d1: "documents c ?s1 = documents c s"
        using assms(1) by (simp add: push_def documents_set_documents_other)
      have r1: "documents ret ?s1 = documents ret s @ [d]"
        using Suc.prems(1) by (simp add: push_def documents_set_documents_same)
      have len1: "ret < length (corpora ?s1)"
        using Suc.prems(1) by (simp add: push_def set_documents_def)
      have sh1: "\<forall>d \<in> set (documents c ?s1). isDoc ?s1 (value_of d)"
        unfolding d1 using Suc.prems(2) by (simp add: isDoc_heap_eq [OF h1])
      have n1: "n = nDocs c ?s1 - Suc i" using Suc.hyps(2) by (simp add: nDocs_def d1)
      have tw: "\<And>ds. set_documents ret ds ?s1 = set_documents ret ds s"
        by (simp add: push_def set_documents_twice)
      have "filter_loop FUN c ret (Suc i) ?s1 =
              Some (completion ret (fst (filter_docs FUN ?s1 (Suc i) (drop (Suc i) (documents c ?s1)))),
                    set_documents ret
                      (documents ret ?s1 @ snd (filter_docs FUN ?s1 (Suc i) (drop (Suc i) (documents c ?s1)))) ?s1)"
        by (rule Suc.hyps(1) [OF n1 len1 sh1])
      then have ih: "filter_loop FUN c ret (Suc i) ?s1 =
              Some (completion ret (fst (filter_docs FUN s (Suc i) (drop (Suc i) (documents c s)))),
                    set_documents ret
                      (documents ret s @ d # snd (filter_docs FUN s (Suc i) (drop (Suc i) (documents c s)))) s)"
        unfolding d1 r1 filter_docs_heap_eq [OF h1] tw by simp
      have "filter_loop FUN c ret i s = filter_loop FUN c ret (Suc i) ?s1"
        using lt Inr True doc
        by (simp add: filter_loop_unfold [of FUN c ret i s] d_def [symmetric] addDoc_document)
      moreover have "filter_docs FUN s i (drop i (documents c s)) =
          (fst (filter_docs FUN s (Suc i) (drop (Suc i) (documents c s))),
           d # snd (filter_docs FUN s (Suc i) (drop (Suc i) (documents c s))))"
        unfolding dr using Inr True by (simp split: prod.splits)
      ultimately show ?thesis using ih by simp
    qed
  qed
qed

lemma Corpus_empty:
  "Corpus JUndefined s = (Inr (JCorpus (length (corpora s))), s\<lparr>corpora := corpora s @ [[]]\<rparr>)"
  by (simp add: Corpus_def init_def set_documents_def Let_def)

lemma filter_corpus_eq:
  assumes "self < length (corpora s)" and "documents_shaped self s"
  shows "filter_corpus FUN self s =
           Some (completion (length (corpora s)) (fst (filter_docs FUN s 0 (documents self s))),
                 s\<lparr>corpora := corpora s @ [snd (filter_docs FUN s 0 (documents self s))]\<rparr>)"
proof -
  let ?n = "length (corpora s)"
  let ?s0 = "s\<lparr>corpora := corpora s @ [[]]\<rparr>"
  have h0: "heap ?s0 = heap s" by simp
  have d0: "documents self ?s0 = documents self s"
    using assms(1) by (simp add: documents_def nth_append)
  have r0: "documents ?n ?s0 = []" by (simp add: documents_def)
  have sh0: "\<forall>d \<in> set (documents self ?s0). isDoc ?s0 (value_of d)"
    unfolding d0 using assms(2) by (simp add: documents_shaped_def isDoc_heap_eq [OF h0])
  have ne: "?n \<noteq> self" using assms(1) by simp
  have lt: "?n < length (corpora ?s0)" by simp
  have upd: "\<And>ds. set_documents ?n ds ?s0 = s\<lparr>corpora := corpora s @ [ds]\<rparr>"
    by (simp add: set_documents_def)
  have "filter_loop FUN self ?n 0 ?s0 =
          Some (completion ?n (fst (filter_docs FUN ?s0 0 (drop 0 (documents self ?s0)))),
                set_documents ?n
                  (documents ?n ?s0 @ snd (filter_docs FUN ?s0 0 (drop 0 (documents self ?s0)))) ?s0)"
    by (rule filter_loop_eq [OF ne lt sh0])
  then have "filter_loop FUN self ?n 0 ?s0 =
          Some (completion ?n (fst (filter_docs FUN s 0 (documents self s))),
                s\<lparr>corpora := corpora s @ [snd (filter_docs FUN s 0 (documents self s))]\<rparr>)"
    unfolding d0 r0 filter_docs_heap_eq [OF h0] upd by simp
  then show ?thesis by (simp add: filter_corpus_def Corpus_empty)
qed

subsection \<open>The shape of the documents is invariant\<close>






























subsection \<open>map terminates\<close>





subsection \<open>Every call keeps the invariant\<close>




subsection \<open>The examples, evaluated\<close>

lemma two_docs_eq:
  "two_docs = \<lparr>heap = [[], [(''text'', JStr [97]), (''attributes'', JObj 0)],
                        [], [(''text'', JStr [98]), (''attributes'', JObj 2)]],
                corpora = [[ObjRef 1, ObjRef 3]]\<rparr>"
  by (simp add: two_docs_def ev)

lemma aliased_corpus_eq:
  "aliased_corpus = \<lparr>heap = [[], [(''text'', JStr [120]), (''attributes'', JObj 0)],
                              [(''a'', JNum 1)], [(''b'', JNum 2)]],
                      corpora = [[ObjRef 1, ObjRef 1]]\<rparr>"
  by (simp add: aliased_corpus_def ev)

lemma four_docs_eq:
  "four_docs = \<lparr>heap = [[], [(''text'', JStr [97]), (''attributes'', JObj 0)],
                         [], [(''text'', JStr [98]), (''attributes'', JObj 2)],
                         [], [(''text'', JStr [99]), (''attributes'', JObj 4)],
                         [], [(''text'', JStr [100]), (''attributes'', JObj 6)]],
                 corpora = [[ObjRef 1, ObjRef 3, ObjRef 5, ObjRef 7]]\<rparr>"
  by (simp add: four_docs_def ev)




lemma ex_rm: "delete_words False [str ''quick''] (str ''The quick fox jumps'') = str ''The  fox jumps''"
  by (simp add: delete_words_def delete_word_def str_def is_word_char_def same_unit_def)

lemma ex_clean: "clean_string (str ''The  fox jumps'') = str ''The fox jumps''"
  by (simp add: clean_string_def trim_string_def is_space_def str_def)

subsection \<open>The properties of the specification\<close>

text \<open>
  C1.  \<open>map\<close> assigns \<^verbatim>\<open>doc.text = FUN( ... )\<close> on the receiver's own Document before
  adding that same object to the new Corpus.  On \<^verbatim>\<open>Corpus( 'a' )\<close> with an upper-casing
  transform the receiver's document, whose text was \<^verbatim>\<open>'a'\<close>, has the text \<^verbatim>\<open>'A'\<close>
  after the call, and the new Corpus holds the very same object; \<^verbatim>\<open>nDocs\<close> stays 1.
\<close>

theorem map_mutates_receiver:
  "get_prop (snd (Corpus (JStr (str ''a'')) empty_state)) 1 ''text'' = JStr (str ''a'')
   \<and> documents 0 (snd (Corpus (JStr (str ''a'')) empty_state)) = [ObjRef 1]
   \<and> map_corpus (string_method (map ascii_upper)) 0 (snd (Corpus (JStr (str ''a'')) empty_state))
       = Some (Inr (JCorpus 1),
           \<lparr>heap = [[], [(''text'', JStr (str ''A'')), (''attributes'', JObj 0)]],
            corpora = [[ObjRef 1], [ObjRef 1]]\<rparr>)"
  by (simp add: ev map_loop.simps)

text \<open>
  C2.  \<open>addDoc\<close> and \<open>addDocs\<close> have no \<^verbatim>\<open>return\<close> statement: called on a new Corpus with
  a string, respectively an array of one string, each returns \<^verbatim>\<open>undefined\<close> and not the
  Corpus, and on every input each either returns \<^verbatim>\<open>undefined\<close> or throws a TypeError;
  the sibling mutator \<open>setAttributes\<close> ends with \<^verbatim>\<open>return self\<close>.
\<close>

theorem addDoc_addDocs_return_undefined:
  "fst (Corpus JUndefined empty_state) = Inr (JCorpus 0)
   \<and> fst (addDoc 0 (JStr (str ''a'')) (snd (Corpus JUndefined empty_state))) = Inr JUndefined
   \<and> fst (addDocs 0 (JArr [JStr (str ''a'')]) (snd (Corpus JUndefined empty_state))) = Inr JUndefined
   \<and> (fst (addDoc self doc s) = Inr JUndefined \<or> fst (addDoc self doc s) = Inl TypeError)
   \<and> (fst (addDocs self docs s) = Inr JUndefined \<or> fst (addDocs self docs s) = Inl TypeError)"
proof -
  have "fst (Corpus JUndefined empty_state) = Inr (JCorpus 0)"
    by (simp add: ev)
  moreover have "fst (addDoc 0 (JStr (str ''a'')) (snd (Corpus JUndefined empty_state))) = Inr JUndefined"
    by (simp add: ev)
  moreover have "fst (addDocs 0 (JArr [JStr (str ''a'')]) (snd (Corpus JUndefined empty_state))) = Inr JUndefined"
    by (simp add: addDocs_def ev)
  ultimately show ?thesis
    using addDoc_returns [of self doc s] addDocs_returns [of self docs s] by simp
qed

text \<open>
  C3, amended.  \<open>setAttributes\<close> throws a TypeError when \<open>arr\<close> is not an array of
  objects with at least one element, and an Error when it is one and its length is not
  \<^verbatim>\<open>nDocs\<close>; in both cases it leaves the store as it was.  Otherwise, on a Corpus whose
  documents have the shape \<open>isDoc\<close> tests, it returns the Corpus, leaves
  \<^verbatim>\<open>documents\<close> and every text unchanged, and \<^verbatim>\<open>documents[i].attributes\<close> is
  \<^verbatim>\<open>arr[i]\<close> for every index \<open>i\<close> whose Document object does not stand again at a
  later index (for every index, when the documents are pairwise distinct objects).
\<close>

theorem setAttributes_all_or_nothing:
  "(\<not> isObjectArray arr \<longrightarrow> setAttributes self arr s = (Inl TypeError, s))
   \<and> (isObjectArray arr \<and> length (elements arr) \<noteq> nDocs self s
        \<longrightarrow> setAttributes self arr s = (Inl Error, s))
   \<and> (isObjectArray arr \<and> length (elements arr) = nDocs self s \<and> documents_shaped self s
        \<longrightarrow> fst (setAttributes self arr s) = Inr (JCorpus self)
            \<and> documents self (snd (setAttributes self arr s)) = documents self s
            \<and> (\<forall>d. get_prop (snd (setAttributes self arr s)) d ''text'' = get_prop s d ''text'')
            \<and> (\<forall>i < nDocs self s.
                  (\<forall>j. i < j \<and> j < nDocs self s \<longrightarrow> documents self s ! j \<noteq> documents self s ! i)
                  \<longrightarrow> member (snd (setAttributes self arr s)) (documents self s ! i) ''attributes''
                        = elements arr ! i))"
proof (intro conjI impI allI)
  assume "\<not> isObjectArray arr"
  then show "setAttributes self arr s = (Inl TypeError, s)" by (simp add: setAttributes_def)
next
  assume "isObjectArray arr \<and> length (elements arr) \<noteq> nDocs self s"
  then show "setAttributes self arr s = (Inl Error, s)" by (simp add: setAttributes_def)
next
  assume a: "isObjectArray arr \<and> length (elements arr) = nDocs self s \<and> documents_shaped self s"
  then have refs: "\<forall>j < length (elements arr). \<exists>a. documents self s ! (0 + j) = ObjRef a"
    by (auto simp: documents_shaped_def nDocs_def dest!: isDoc_value_of)
  from a setAttributes_loop_returns [OF refs]
  show "fst (setAttributes self arr s) = Inr (JCorpus self)" by (simp add: setAttributes_def)
  from a show "documents self (snd (setAttributes self arr s)) = documents self s"
    by (simp add: setAttributes_def setAttributes_loop_documents)
  {
    fix d
    from a show "get_prop (snd (setAttributes self arr s)) d ''text'' = get_prop s d ''text''"
      by (simp add: setAttributes_def setAttributes_loop_other)
  }
  {
    fix i
    assume i: "i < nDocs self s"
      and later: "\<forall>j. i < j \<and> j < nDocs self s \<longrightarrow> documents self s ! j \<noteq> documents self s ! i"
    from a i have "isDoc s (value_of (documents self s ! i))"
      by (simp add: documents_shaped_def nDocs_def)
    then obtain b where b: "documents self s ! (0 + i) = ObjRef b" and valid: "b < length (heap s)"
      by (auto simp: hasOwnProperty_def dest!: isDoc_value_of)
    have "get_prop (snd (setAttributes_loop self (elements arr) 0 s)) b ''attributes''
            = elements arr ! i"
    proof (rule setAttributes_loop_at [OF _ b valid refs])
      show "i < length (elements arr)" using a i by simp
      show "\<forall>j'. i < j' \<and> j' < length (elements arr) \<longrightarrow>
              documents self s ! (0 + j') \<noteq> ObjRef b"
        using a later b by simp
    qed
    with a b show "member (snd (setAttributes self arr s)) (documents self s ! i) ''attributes''
                   = elements arr ! i"
      by (simp add: setAttributes_def)
  }
qed

text \<open>
  C3, as stated, fails in two ways.  When one Document object stands at two indices of
  \<^verbatim>\<open>documents\<close> (\<^verbatim>\<open>c.addDoc( d ); c.addDoc( d )\<close>), \<open>setAttributes\<close> succeeds on an
  array of two objects, and afterwards \<^verbatim>\<open>documents[0].attributes\<close> is the second of them,
  not the first.  And the empty array, in which every element is an object, is refused
  with a TypeError: on a Corpus of two documents, where its length differs from
  \<^verbatim>\<open>nDocs\<close> and an Error is expected, and on an empty Corpus, where its length is
  \<^verbatim>\<open>nDocs\<close> and success is expected.
\<close>

theorem setAttributes_aliased_counterexample:
  "isObjectArray (JArr [JObj 2, JObj 3])
   \<and> length (elements (JArr [JObj 2, JObj 3])) = nDocs 0 aliased_corpus
   \<and> fst (setAttributes 0 (JArr [JObj 2, JObj 3]) aliased_corpus) = Inr (JCorpus 0)
   \<and> member (snd (setAttributes 0 (JArr [JObj 2, JObj 3]) aliased_corpus))
        (documents 0 (snd (setAttributes 0 (JArr [JObj 2, JObj 3]) aliased_corpus)) ! 0) ''attributes''
       \<noteq> elements (JArr [JObj 2, JObj 3]) ! 0
   \<and> list_all isObject (elements (JArr []))
   \<and> length (elements (JArr [])) \<noteq> nDocs 0 two_docs
   \<and> setAttributes 0 (JArr []) two_docs = (Inl TypeError, two_docs)
   \<and> length (elements (JArr [])) = nDocs 0 (snd (Corpus JUndefined empty_state))
   \<and> fst (setAttributes 0 (JArr []) (snd (Corpus JUndefined empty_state))) = Inl TypeError"
proof -
  have "isObjectArray (JArr [JObj 2, JObj 3])
   \<and> length (elements (JArr [JObj 2, JObj 3])) = nDocs 0 aliased_corpus
   \<and> fst (setAttributes 0 (JArr [JObj 2, JObj 3]) aliased_corpus) = Inr (JCorpus 0)
   \<and> member (snd (setAttributes 0 (JArr [JObj 2, JObj 3]) aliased_corpus))
        (documents 0 (snd (setAttributes 0 (JArr [JObj 2, JObj 3]) aliased_corpus)) ! 0) ''attributes''
       \<noteq> elements (JArr [JObj 2, JObj 3]) ! 0"
    unfolding aliased_corpus_eq
    by (simp add: setAttributes_def nDocs_def documents_def set_prop_def get_prop_def)
  moreover have "length (elements (JArr [])) \<noteq> nDocs 0 two_docs"
    unfolding two_docs_eq by (simp add: nDocs_def documents_def)
  moreover have "setAttributes 0 (JArr []) two_docs = (Inl TypeError, two_docs)"
    by (simp add: setAttributes_def)
  moreover have "length (elements (JArr [])) = nDocs 0 (snd (Corpus JUndefined empty_state))"
    by (simp add: ev)
  moreover have "fst (setAttributes 0 (JArr []) (snd (Corpus JUndefined empty_state))) = Inl TypeError"
    by (simp add: setAttributes_def)
  ultimately show ?thesis by simp
qed

theorem setAttributes_all_or_nothing_witness:
  "\<not> isObjectArray (JNum 5)
   \<and> setAttributes 0 (JNum 5) two_docs = (Inl TypeError, two_docs)
   \<and> isObjectArray (JArr [JObj 0])
   \<and> length (elements (JArr [JObj 0])) \<noteq> nDocs 0 two_docs
   \<and> setAttributes 0 (JArr [JObj 0]) two_docs = (Inl Error, two_docs)
   \<and> isObjectArray (JArr [JObj 2, JObj 0])
   \<and> length (elements (JArr [JObj 2, JObj 0])) = nDocs 0 two_docs
   \<and> documents_shaped 0 two_docs
   \<and> documents 0 two_docs = [ObjRef 1, ObjRef 3]
   \<and> fst (setAttributes 0 (JArr [JObj 2, JObj 0]) two_docs) = Inr (JCorpus 0)
   \<and> get_prop (snd (setAttributes 0 (JArr [JObj 2, JObj 0]) two_docs)) 1 ''attributes'' = JObj 2
   \<and> get_prop (snd (setAttributes 0 (JArr [JObj 2, JObj 0]) two_docs)) 3 ''attributes'' = JObj 0"
proof -
  have n: "nDocs 0 two_docs = 2" and d: "documents 0 two_docs = [ObjRef 1, ObjRef 3]"
    unfolding two_docs_eq by (simp_all add: nDocs_def documents_def)
  have sh: "documents_shaped 0 two_docs"
    unfolding two_docs_eq by (simp add: documents_shaped_def documents_def hasOwnProperty_def)
  have a: "setAttributes 0 (JNum 5) two_docs = (Inl TypeError, two_docs)"
    using setAttributes_all_or_nothing [of "JNum 5" 0 two_docs] by simp
  have b: "setAttributes 0 (JArr [JObj 0]) two_docs = (Inl Error, two_docs)"
    using setAttributes_all_or_nothing [of "JArr [JObj 0]" 0 two_docs] n by simp
  note c = setAttributes_all_or_nothing [of "JArr [JObj 2, JObj 0]" 0 two_docs,
      THEN conjunct2, THEN conjunct2, rule_format]
  have hyp: "isObjectArray (JArr [JObj 2, JObj 0])
      \<and> length (elements (JArr [JObj 2, JObj 0])) = nDocs 0 two_docs \<and> documents_shaped 0 two_docs"
    using n sh by simp
  have c0: "fst (setAttributes 0 (JArr [JObj 2, JObj 0]) two_docs) = Inr (JCorpus 0)"
    using c [OF hyp] by simp
  have c1: "member (snd (setAttributes 0 (JArr [JObj 2, JObj 0]) two_docs))
              (documents 0 two_docs ! 0) ''attributes'' = elements (JArr [JObj 2, JObj 0]) ! 0"
    using c [OF hyp, THEN conjunct2, THEN conjunct2, THEN conjunct2, rule_format, of 0] n d
    by (simp add: less_Suc_eq)
  have c2: "member (snd (setAttributes 0 (JArr [JObj 2, JObj 0]) two_docs))
              (documents 0 two_docs ! 1) ''attributes'' = elements (JArr [JObj 2, JObj 0]) ! 1"
    using c [OF hyp, THEN conjunct2, THEN conjunct2, THEN conjunct2, rule_format, of 1] n d
    by (auto simp: less_Suc_eq numeral_2_eq_2)
  from a b n d sh c0 c1 c2 show ?thesis by simp
qed




text \<open>
  C5, amended.  The constructor gives an empty Corpus for \<^verbatim>\<open>undefined\<close>, a Corpus of one
  Document with the given text for a string, one Document per element and in order for an
  array of strings that is not empty, and for any other argument, the empty array among
  them, throws a TypeError with the store as it was before the call.
\<close>

theorem Corpus_constructor_shapes:
  "Corpus JUndefined s = (Inr (JCorpus (length (corpora s))), s\<lparr>corpora := corpora s @ [[]]\<rparr>)
   \<and> nDocs (length (corpora s)) (snd (Corpus JUndefined s)) = 0
   \<and> fst (Corpus (JStr t) s) = Inr (JCorpus (length (corpora s)))
   \<and> nDocs (length (corpora s)) (snd (Corpus (JStr t) s)) = 1
   \<and> member (snd (Corpus (JStr t) s))
        (documents (length (corpora s)) (snd (Corpus (JStr t) s)) ! 0) ''text'' = JStr t
   \<and> (vs \<noteq> [] \<and> list_all isString vs \<longrightarrow>
        fst (Corpus (JArr vs) s) = Inr (JCorpus (length (corpora s)))
        \<and> nDocs (length (corpora s)) (snd (Corpus (JArr vs) s)) = length vs
        \<and> (\<forall>i < length vs.
              member (snd (Corpus (JArr vs) s))
                (documents (length (corpora s)) (snd (Corpus (JArr vs) s)) ! i) ''text'' = vs ! i))
   \<and> (docs \<noteq> JUndefined \<and> \<not> isString docs \<and> \<not> isStringArray docs \<longrightarrow>
        Corpus docs s = (Inl TypeError, s))
   \<and> Corpus (JArr []) s = (Inl TypeError, s)"
proof (intro conjI impI allI)
  show "Corpus JUndefined s = (Inr (JCorpus (length (corpora s))), s\<lparr>corpora := corpora s @ [[]]\<rparr>)"
    by (simp add: Corpus_def init_def set_documents_def Let_def)
  then show "nDocs (length (corpora s)) (snd (Corpus JUndefined s)) = 0"
    by (simp add: nDocs_def documents_def)
  show "fst (Corpus (JStr t) s) = Inr (JCorpus (length (corpora s)))"
    by (simp add: Corpus_def init_def Doc_def new_object_def split_def Let_def)
  show "nDocs (length (corpora s)) (snd (Corpus (JStr t) s)) = 1"
    by (simp add: Corpus_def init_def Doc_def new_object_def split_def nDocs_def documents_def
        set_documents_def Let_def)
  show "member (snd (Corpus (JStr t) s))
        (documents (length (corpora s)) (snd (Corpus (JStr t) s)) ! 0) ''text'' = JStr t"
    by (simp add: Corpus_def init_def Doc_def new_object_def split_def documents_def
        set_documents_def get_prop_def nth_append Let_def)
  show "Corpus (JArr []) s = (Inl TypeError, s)"
    by (simp add: Corpus_def init_def Let_def)
next
  assume "vs \<noteq> [] \<and> list_all isString vs"
  then have vs: "list_all isString vs" and ne: "vs \<noteq> []" by simp_all
  let ?s0 = "s\<lparr>corpora := corpora s @ [[]]\<rparr>"
  let ?ds = "map (\<lambda>i. length (heap s) + 2 * i + 1) [0..<length vs]"
  have w: "wrap_strings vs ?s0 = (Inr ?ds, ?s0\<lparr>heap := heap s @ cells (length (heap s)) vs\<rparr>)"
    using wrap_strings_eq [OF vs, of ?s0] by simp
  have c: "Corpus (JArr vs) s =
      (Inr (JCorpus (length (corpora s))),
       \<lparr>heap = heap s @ cells (length (heap s)) vs, corpora = corpora s @ [map ObjRef ?ds]\<rparr>)"
    using vs ne by (simp add: Corpus_def init_def w set_documents_def Let_def)
  show "fst (Corpus (JArr vs) s) = Inr (JCorpus (length (corpora s)))"
    by (simp add: c)
  show "nDocs (length (corpora s)) (snd (Corpus (JArr vs) s)) = length vs"
    by (simp add: c nDocs_def documents_def)
  fix i assume i: "i < length vs"
  have "(heap s @ cells (length (heap s)) vs) ! (length (heap s) + (2 * i + 1))
          = cells (length (heap s)) vs ! (2 * i + 1)"
    by (rule nth_append_length_plus)
  with cells_nth [OF i, of "length (heap s)"] i
  show "member (snd (Corpus (JArr vs) s))
          (documents (length (corpora s)) (snd (Corpus (JArr vs) s)) ! i) ''text'' = vs ! i"
    by (simp add: c documents_def get_prop_def length_cells add.assoc)
next
  assume "docs \<noteq> JUndefined \<and> \<not> isString docs \<and> \<not> isStringArray docs"
  then show "Corpus docs s = (Inl TypeError, s)"
    by (simp add: Corpus_def init_def Let_def)
qed

text \<open>
  C5, as stated, fails for the empty array: it is a sequence of strings, of none, and
  \<^verbatim>\<open>Corpus( [] )\<close> throws a TypeError where an empty Corpus is expected.
\<close>

theorem Corpus_empty_array_counterexample:
  "list_all isString (elements (JArr []))
   \<and> Corpus (JArr []) empty_state = (Inl TypeError, empty_state)"
  by (simp add: Corpus_def init_def Let_def)

theorem Corpus_constructor_shapes_witness:
  "[JStr (str ''a''), JStr (str ''b'')] \<noteq> []
   \<and> list_all isString [JStr (str ''a''), JStr (str ''b'')]
   \<and> fst (Corpus (JArr [JStr (str ''a''), JStr (str ''b'')]) empty_state) = Inr (JCorpus 0)
   \<and> nDocs 0 two_docs = 2
   \<and> member two_docs (documents 0 two_docs ! 0) ''text'' = JStr (str ''a'')
   \<and> member two_docs (documents 0 two_docs ! 1) ''text'' = JStr (str ''b'')
   \<and> JNum 5 \<noteq> JUndefined \<and> \<not> isString (JNum 5) \<and> \<not> isStringArray (JNum 5)
   \<and> Corpus (JNum 5) empty_state = (Inl TypeError, empty_state)
   \<and> Corpus (JArr [JStr (str ''a''), JNum 5]) empty_state = (Inl TypeError, empty_state)"
proof -
  note c = Corpus_constructor_shapes [of empty_state _ "[JStr (str ''a''), JStr (str ''b'')]",
      THEN conjunct2, THEN conjunct2, THEN conjunct2, THEN conjunct2, THEN conjunct2,
      THEN conjunct1, rule_format]
  have l: "[JStr (str ''a''), JStr (str ''b'')] \<noteq> [] \<and> list_all isString [JStr (str ''a''), JStr (str ''b'')]"
    by simp
  have e: "length (corpora empty_state) = 0" by (simp add: empty_state_def)
  have a: "fst (Corpus (JArr [JStr (str ''a''), JStr (str ''b'')]) empty_state) = Inr (JCorpus 0)"
    using c [OF l, THEN conjunct1] e by simp
  have n: "nDocs 0 two_docs = 2"
    using c [OF l, THEN conjunct2, THEN conjunct1] e by (simp add: two_docs_def)
  have t0: "member two_docs (documents 0 two_docs ! 0) ''text'' = JStr (str ''a'')"
    using c [OF l, THEN conjunct2, THEN conjunct2, rule_format, of 0] e by (simp add: two_docs_def)
  have t1: "member two_docs (documents 0 two_docs ! 1) ''text'' = JStr (str ''b'')"
    using c [OF l, THEN conjunct2, THEN conjunct2, rule_format, of 1] e by (simp add: two_docs_def)
  have x: "Corpus (JNum 5) empty_state = (Inl TypeError, empty_state)"
    using Corpus_constructor_shapes [of empty_state _ _ "JNum 5"] by simp
  have y: "Corpus (JArr [JStr (str ''a''), JNum 5]) empty_state = (Inl TypeError, empty_state)"
    using Corpus_constructor_shapes [of empty_state _ _ "JArr [JStr (str ''a''), JNum 5]"] by simp
  from l a n t0 t1 x y show ?thesis by simp
qed

text \<open>
  C6.  On a Corpus whose documents have the shape \<open>isDoc\<close> tests, \<open>filter\<close> terminates;
  it changes no object and no existing Corpus (so \<^verbatim>\<open>nDocs\<close> and every text of the
  receiver are as before), and when the predicate never throws it returns a new Corpus
  whose \<^verbatim>\<open>documents\<close> are exactly the receiver's Document references for which
  \<^verbatim>\<open>FUN( text, attributes, index )\<close> is truthy, in the receiver's order.
\<close>

theorem filter_keeps_selected_in_order:
  assumes "self < length (corpora s)" and "documents_shaped self s"
  shows "case filter_corpus FUN self s of
           None \<Rightarrow> False
         | Some (r, s') \<Rightarrow>
             heap s' = heap s
             \<and> take (length (corpora s)) (corpora s') = corpora s
             \<and> documents self s' = documents self s
             \<and> nDocs self s' = nDocs self s
             \<and> (\<forall>d. get_prop s' d ''text'' = get_prop s d ''text'')
             \<and> set (documents (length (corpora s)) s') \<subseteq> set (documents self s)
             \<and> ((\<forall>p \<in> set (zip (documents self s) [0..<nDocs self s]). \<not> raises FUN s p) \<longrightarrow>
                   r = Inr (JCorpus (length (corpora s)))
                   \<and> documents (length (corpora s)) s' =
                       map fst (filter (selects FUN s) (zip (documents self s) [0..<nDocs self s])))"
proof -
  let ?kept = "snd (filter_docs FUN s 0 (documents self s))"
  let ?s' = "s\<lparr>corpora := corpora s @ [?kept]\<rparr>"
  have eq: "filter_corpus FUN self s =
      Some (completion (length (corpora s)) (fst (filter_docs FUN s 0 (documents self s))), ?s')"
    by (rule filter_corpus_eq [OF assms])
  have a: "documents self ?s' = documents self s"
    using assms(1) by (simp add: documents_def nth_append)
  have b: "documents (length (corpora s)) ?s' = ?kept"
    by (simp add: documents_def)
  have c: "\<forall>d. get_prop ?s' d ''text'' = get_prop s d ''text''"
    by (simp add: get_prop_def)
  have d: "set ?kept \<subseteq> set (documents self s)" by (rule filter_docs_subset)
  have e: "(\<forall>p \<in> set (zip (documents self s) [0..<nDocs self s]). \<not> raises FUN s p) \<longrightarrow>
      filter_docs FUN s 0 (documents self s) =
        (None, map fst (filter (selects FUN s) (zip (documents self s) [0..<nDocs self s])))"
    using filter_docs_no_raise [of "documents self s" 0 FUN s] by (simp add: nDocs_def)
  show ?thesis
    unfolding eq using a b c d e
    by (auto simp: nDocs_def completion_def)
qed

theorem filter_keeps_selected_in_order_witness:
  "0 < length (corpora four_docs)
   \<and> documents_shaped 0 four_docs
   \<and> documents 0 four_docs = [ObjRef 1, ObjRef 3, ObjRef 5, ObjRef 7]
   \<and> map_option fst (filter_corpus even_index 0 four_docs) = Some (Inr (JCorpus 1))
   \<and> map_option (\<lambda>p. documents 1 (snd p)) (filter_corpus even_index 0 four_docs) = Some [ObjRef 1, ObjRef 5]
   \<and> map_option (\<lambda>p. documents 0 (snd p)) (filter_corpus even_index 0 four_docs) = Some [ObjRef 1, ObjRef 3, ObjRef 5, ObjRef 7]
   \<and> map_option (\<lambda>p. get_prop (snd p) 1 ''text'') (filter_corpus even_index 0 four_docs)
       = Some (JStr (str ''a''))
   \<and> map_option (\<lambda>p. get_prop (snd p) 5 ''text'') (filter_corpus even_index 0 four_docs)
       = Some (JStr (str ''c''))"
proof -
  have l: "0 < length (corpora four_docs)" unfolding four_docs_eq by simp
  have sh: "documents_shaped 0 four_docs"
    unfolding four_docs_eq by (simp add: documents_shaped_def documents_def hasOwnProperty_def)
  have d: "documents 0 four_docs = [ObjRef 1, ObjRef 3, ObjRef 5, ObjRef 7]" and n: "nDocs 0 four_docs = 4"
    and c: "corpora four_docs = [[ObjRef 1, ObjRef 3, ObjRef 5, ObjRef 7]]"
    unfolding four_docs_eq by (simp_all add: documents_def nDocs_def)
  have up: "[0..<4] = [0, 1, 2, 3::nat]" by (simp add: upt_rec)
  have nr: "\<forall>p \<in> set (zip (documents 0 four_docs) [0..<nDocs 0 four_docs]). \<not> raises even_index four_docs p"
    by (simp add: raises_def even_index_def)
  have sel: "map fst (filter (selects even_index four_docs) (zip (documents 0 four_docs) [0..<nDocs 0 four_docs]))
               = [ObjRef 1, ObjRef 5]"
    unfolding d n up by (simp add: selects_def even_index_def)
  have g: "get_prop four_docs 1 ''text'' = JStr (str ''a'')"
    "get_prop four_docs 5 ''text'' = JStr (str ''c'')"
    unfolding four_docs_eq by (simp_all add: get_prop_def str_def)
  obtain r s' where f: "filter_corpus even_index 0 four_docs = Some (r, s')"
    using filter_keeps_selected_in_order [OF l sh, of even_index]
    by (auto split: option.splits)
  note th = filter_keeps_selected_in_order [OF l sh, of even_index, unfolded f option.case prod.case]
  from th have d': "documents 0 s' = documents 0 four_docs"
    and tx: "\<forall>d. get_prop s' d ''text'' = get_prop four_docs d ''text''"
    by blast+
  from th nr have "r = Inr (JCorpus (length (corpora four_docs)))
      \<and> documents (length (corpora four_docs)) s' =
          map fst (filter (selects even_index four_docs)
            (zip (documents 0 four_docs) [0..<nDocs 0 four_docs]))"
    by blast
  then have "r = Inr (JCorpus 1)" and "documents 1 s' = [ObjRef 1, ObjRef 5]"
    unfolding sel by (simp_all add: c)
  moreover have "documents 0 s' = [ObjRef 1, ObjRef 3, ObjRef 5, ObjRef 7]" using d' d by simp
  moreover have "get_prop s' 1 ''text'' = JStr (str ''a'')"
    and "get_prop s' 5 ''text'' = JStr (str ''c'')"
    using tx g by simp_all
  ultimately have "r = Inr (JCorpus 1)" and "documents 0 s' = [ObjRef 1, ObjRef 3, ObjRef 5, ObjRef 7]" and "documents 1 s' = [ObjRef 1, ObjRef 5]"
    and "get_prop s' 1 ''text'' = JStr (str ''a'')" and "get_prop s' 5 ''text'' = JStr (str ''c'')"
    by simp_all
  with l sh d show ?thesis unfolding f by simp
qed

text \<open>
  C7.  On a Corpus whose documents have the shape \<open>isDoc\<close> tests, \<open>apply\<close> with the
  identity function returns the Corpus and leaves the whole store as it was, so every
  document's text and \<^verbatim>\<open>nDocs\<close> are unchanged.
\<close>

theorem apply_identity_unchanged:
  "documents_shaped self s \<Longrightarrow> apply_corpus (\<lambda>text attributes i. Inr text) self s = (Inr (JCorpus self), s)"
  by (simp add: apply_corpus_def apply_loop_identity)

theorem apply_identity_unchanged_witness:
  "documents_shaped 0 (snd (Corpus (JStr (str ''a'')) empty_state))
   \<and> apply_corpus (\<lambda>text attributes i. Inr text) 0 (snd (Corpus (JStr (str ''a'')) empty_state))
       = (Inr (JCorpus 0), snd (Corpus (JStr (str ''a'')) empty_state))"
proof -
  have sh: "documents_shaped 0 (snd (Corpus (JStr (str ''a'')) empty_state))"
    by (simp add: documents_shaped_def ev)
  from sh apply_identity_unchanged [OF sh] show ?thesis by simp
qed

text \<open>
  C8, amended.  When every text of the Corpus is a string, every listed word consists of
  word characters (\<^verbatim>\<open>[A-Za-z0-9_]\<close>) and the host's \<^verbatim>\<open>_.clean\<close> is that of
  underscore.string, then \<open>removeWords\<close> returns the Corpus with every text replaced by
  the cleaned result of deleting, word after word, every maximal run of word characters
  of the text that equals the word (exactly when the second argument is falsy, up to the
  case of ASCII letters when it is truthy), and a following \<open>clean()\<close> cleans once more;
  when the documents are pairwise distinct objects, the text \<open>t\<close> of each has become
  the cleaned \<open>t\<close> without those runs.  Cleaning trims the text and replaces every run of
  two or more whitespace characters by one space.  The witness is the example of the spec:
  \<^verbatim>\<open>"The quick fox jumps"\<close> becomes \<^verbatim>\<open>"The fox jumps"\<close>.
\<close>

theorem removeWords_then_clean:
  assumes "texts_are_strings self s"
    and "list_all (list_all is_word_char) words"
    and "\<forall>t. us_clean X (JStr t) = Inr (JStr (clean_string t))"
  shows "removeWords X words case_insensitive self s =
           (Inr (JCorpus self),
            rewrite_texts clean_string (documents self s)
              (rewrite_texts (delete_words (truthy case_insensitive) words) (documents self s) s))
         \<and> clean X self (snd (removeWords X words case_insensitive self s)) =
           (Inr (JCorpus self),
            rewrite_texts clean_string (documents self s)
              (rewrite_texts clean_string (documents self s)
                 (rewrite_texts (delete_words (truthy case_insensitive) words) (documents self s) s)))
         \<and> (distinct (documents self s) \<longrightarrow>
               (\<forall>d \<in> set (documents self s). \<forall>t. member s d ''text'' = JStr t \<longrightarrow>
                  member (snd (removeWords X words case_insensitive self s)) d ''text''
                    = JStr (clean_string (delete_words (truthy case_insensitive) words t))))"
proof -
  let ?ds = "documents self s"
  let ?s1 = "rewrite_texts (delete_words (truthy case_insensitive) words) ?ds s"
  let ?s2 = "rewrite_texts clean_string ?ds ?s1"
  from assms(1) have str: "\<forall>d \<in> set ?ds. isString (member s d ''text'')"
    by (simp add: texts_are_strings_def)
  have pat: "list_all (list_all (\<lambda>c. is_word_char c \<or> c = 46)) words"
    using assms(2) by (auto simp: list_all_iff)
  have same: "remove_words (truthy case_insensitive) words = delete_words (truthy case_insensitive) words"
    using remove_words_delete_words [OF assms(2)] by (intro ext)
  have loop: "removeWords_loop X words (truthy case_insensitive) self 0 s = (Inr JUndefined, ?s1)"
    using removeWords_loop_words [OF str pat, of X "truthy case_insensitive" 0] by (simp add: same)
  have docs1: "documents self ?s1 = ?ds"
    and str1: "\<forall>d \<in> set ?ds. isString (member ?s1 d ''text'')"
    using rewrite_texts_frame [of self _ ?ds s] str by simp_all
  have cl: "\<And>t (a::jsval) (i::nat). us_clean X (JStr t) = Inr (JStr (clean_string t))"
    using assms(3) by simp
  have c1: "clean X self ?s1 = (Inr (JCorpus self), ?s2)"
    using apply_loop_strings [of self ?s1 "\<lambda>text attributes i. us_clean X text" clean_string 0] str1 cl
    by (simp add: clean_def apply_corpus_def docs1 returning_self_def)
  have docs2: "documents self ?s2 = ?ds"
    and str2: "\<forall>d \<in> set ?ds. isString (member ?s2 d ''text'')"
    using rewrite_texts_frame [of self _ ?ds ?s1] str1 docs1 by simp_all
  have c2: "clean X self ?s2 = (Inr (JCorpus self), rewrite_texts clean_string ?ds ?s2)"
    using apply_loop_strings [of self ?s2 "\<lambda>text attributes i. us_clean X text" clean_string 0] str2 cl
    by (simp add: clean_def apply_corpus_def docs2 returning_self_def)
  have r: "removeWords X words case_insensitive self s = (Inr (JCorpus self), ?s2)"
    by (simp add: removeWords_def loop c1 returning_self_def)
  have each: "member ?s2 d ''text'' = JStr (clean_string (delete_words (truthy case_insensitive) words t))"
    if "distinct ?ds" and "d \<in> set ?ds" and "member s d ''text'' = JStr t" for d t
  proof -
    from that(3) obtain a where a: "d = ObjRef a" and t: "get_prop s a ''text'' = JStr t"
      by (cases d) simp_all
    from that(1) that(2) [unfolded a] t
    have "get_prop ?s1 a ''text'' = JStr (delete_words (truthy case_insensitive) words t)"
      by (rule rewrite_texts_distinct)
    with that(1) that(2) [unfolded a]
    have "get_prop ?s2 a ''text'' = JStr (clean_string (delete_words (truthy case_insensitive) words t))"
      by (rule rewrite_texts_distinct)
    with a show ?thesis by simp
  qed
  show ?thesis using each by (simp add: r c2)
qed

text \<open>
  C8, as stated, fails for a listed word that is not made of word characters: the word is
  put into the regular expression as it stands, so it is a pattern and not a word.  The
  text \<^verbatim>\<open>"abc"\<close> contains no dot, hence no occurrence of the word \<^verbatim>\<open>"a.c"\<close>, and
  deleting the whole words equal to \<^verbatim>\<open>"a.c"\<close> leaves it as it is; yet
  \<^verbatim>\<open>removeWords( [ 'a.c' ], false )\<close> deletes all of it and leaves the empty text.
\<close>

theorem removeWords_pattern_counterexample:
  "46 \<notin> set (str ''abc'')
   \<and> delete_words False [str ''a.c''] (str ''abc'') = str ''abc''
   \<and> get_prop (snd (Corpus (JStr (str ''abc'')) empty_state)) 1 ''text'' = JStr (str ''abc'')
   \<and> removeWords sample_host [str ''a.c''] (JBool False) 0 (snd (Corpus (JStr (str ''abc'')) empty_state))
       = (Inr (JCorpus 0),
          \<lparr>heap = [[], [(''text'', JStr []), (''attributes'', JObj 0)]],
           corpora = [[ObjRef 1]]\<rparr>)"
proof -
  have s: "snd (Corpus (JStr (str ''abc'')) empty_state) =
             \<lparr>heap = [[], [(''text'', JStr (str ''abc'')), (''attributes'', JObj 0)]],
              corpora = [[ObjRef 1]]\<rparr>"
    by (simp add: ev)
  have w: "word_regexp sample_host False (str ''a.c'') = Inr (remove_word False (str ''a.c''))"
    by (simp add: word_regexp_def str_def is_word_char_def)
  have rm: "remove_word False (str ''a.c'') (str ''abc'') = []"
    by (simp add: remove_word_def str_def is_word_char_def unit_matches_def same_unit_def
        is_line_terminator_def)
  have us: "us_clean sample_host (JStr t) = Inr (JStr (clean_string t))" for t
    by (simp add: sample_host_def on_string_def)
  have "46 \<notin> set (str ''abc'')" by (simp add: str_def)
  moreover have "delete_words False [str ''a.c''] (str ''abc'') = str ''abc''"
    by (simp add: delete_words_def delete_word_def str_def is_word_char_def same_unit_def)
  moreover have "get_prop (snd (Corpus (JStr (str ''abc'')) empty_state)) 1 ''text'' = JStr (str ''abc'')"
    unfolding s by (simp add: get_prop_def)
  moreover have "removeWords sample_host [str ''a.c''] (JBool False) 0
        (snd (Corpus (JStr (str ''abc'')) empty_state))
       = (Inr (JCorpus 0),
          \<lparr>heap = [[], [(''text'', JStr []), (''attributes'', JObj 0)]],
           corpora = [[ObjRef 1]]\<rparr>)"
    unfolding s
    by (simp add: removeWords_def removeWords_loop.simps w rm clean_def us
        clean_string_def trim_string_def nDocs_def documents_def get_prop_def
        set_prop_def apply_corpus_def apply_loop.simps set_element_def set_documents_def
        returning_self_def)
  ultimately show ?thesis by simp
qed

theorem removeWords_then_clean_witness:
  "texts_are_strings 0 (snd (Corpus (JStr (str ''The quick fox jumps'')) empty_state))
   \<and> distinct (documents 0 (snd (Corpus (JStr (str ''The quick fox jumps'')) empty_state)))
   \<and> list_all (list_all is_word_char) [str ''quick'']
   \<and> (\<forall>t. us_clean sample_host (JStr t) = Inr (JStr (clean_string t)))
   \<and> get_prop (snd (removeWords sample_host [str ''quick''] (JBool False) 0
         (snd (Corpus (JStr (str ''The quick fox jumps'')) empty_state)))) 1 ''text''
       = JStr (str ''The fox jumps'')
   \<and> get_prop (snd (clean sample_host 0 (snd (removeWords sample_host [str ''quick''] (JBool False) 0
         (snd (Corpus (JStr (str ''The quick fox jumps'')) empty_state)))))) 1 ''text''
       = JStr (str ''The fox jumps'')"
proof -
  let ?s = "snd (Corpus (JStr (str ''The quick fox jumps'')) empty_state)"
  have s: "?s = \<lparr>heap = [[], [(''text'', JStr (str ''The quick fox jumps'')), (''attributes'', JObj 0)]],
                  corpora = [[ObjRef 1]]\<rparr>"
    by (simp add: ev)
  have h1: "texts_are_strings 0 ?s"
    unfolding s by (simp add: texts_are_strings_def documents_def get_prop_def)
  have h2: "list_all (list_all is_word_char) [str ''quick'']"
    by (simp add: str_def is_word_char_def)
  have h3: "\<forall>t. us_clean sample_host (JStr t) = Inr (JStr (clean_string t))"
    by (simp add: sample_host_def on_string_def)
  have c1: "clean_string (str ''The fox jumps'') = str ''The fox jumps''"
    by (simp add: clean_string_def trim_string_def is_space_def str_def)
  note r = removeWords_then_clean [OF h1 h2 h3, of "JBool False"]
  have r1: "get_prop (snd (removeWords sample_host [str ''quick''] (JBool False) 0 ?s)) 1 ''text''
              = JStr (str ''The fox jumps'')"
    unfolding r [THEN conjunct1] unfolding s
    by (simp add: documents_def get_prop_def set_prop_def ex_rm ex_clean)
  have r2: "get_prop (snd (clean sample_host 0
              (snd (removeWords sample_host [str ''quick''] (JBool False) 0 ?s)))) 1 ''text''
              = JStr (str ''The fox jumps'')"
    unfolding r [THEN conjunct2, THEN conjunct1] unfolding s
    by (simp add: documents_def get_prop_def set_prop_def ex_rm ex_clean c1)
  have h4: "distinct (documents 0 ?s)"
    unfolding s by (simp add: documents_def)
  from h1 h2 h3 h4 r1 r2 show ?thesis by blast
qed




end
